theory Spec2Isabelle
  imports Main "HOL-Library.Sublist"
begin

section \<open>Strings\<close>

text \<open>
  Source strings are sequences of code units. The model uses \<^typ>\<open>string\<close>, whose
  characters are the code units 0..255 (ASCII and Latin-1); the string operations of the
  source are modelled on that range. Code units above 255 are outside the model.
\<close>

text \<open>The white space that \<^verbatim>\<open>String.prototype.trim\<close> strips and that \<^verbatim>\<open>\s\<close> matches:
  TAB, LF, VT, FF, CR, SPACE and NBSP.\<close>

definition isWhiteSpace :: "char \<Rightarrow> bool" where
  "isWhiteSpace c = (c \<in> set [CHR 0x09, CHR 0x0A, CHR 0x0B, CHR 0x0C, CHR 0x0D, CHR 0x20, CHR 0xA0])"

definition trim :: "string \<Rightarrow> string" where
  "trim s = rev (dropWhile isWhiteSpace (rev (dropWhile isWhiteSpace s)))"

text \<open>Upper-case letters: A..Z, and the Latin-1 letters 0xC0..0xDE without the
  multiplication sign 0xD7. Their lower-case form is 32 code units higher, which is the
  same code unit with bit 5 set.\<close>

definition isUpper :: "char \<Rightarrow> bool" where
  "isUpper c = (let n = (of_char c :: nat) in
     (65 \<le> n \<and> n \<le> 90) \<or> (192 \<le> n \<and> n \<le> 222 \<and> n \<noteq> 215))"

definition lowerChar :: "char \<Rightarrow> char" where
  "lowerChar c = (if isUpper c
     then (case c of Char b0 b1 b2 b3 b4 b5 b6 b7 \<Rightarrow> Char b0 b1 b2 b3 b4 True b6 b7)
     else c)"

definition toLowerCase :: "string \<Rightarrow> string" where
  "toLowerCase s = map lowerChar s"

text \<open>\<^verbatim>\<open>[a-zA-Z]\<close> and \<^verbatim>\<open>[a-zA-Z0-9]\<close> of the source's regular expressions.\<close>

definition isAsciiLetter :: "char \<Rightarrow> bool" where
  "isAsciiLetter c = (let n = (of_char c :: nat) in
     (65 \<le> n \<and> n \<le> 90) \<or> (97 \<le> n \<and> n \<le> 122))"

definition isAsciiAlnum :: "char \<Rightarrow> bool" where
  "isAsciiAlnum c = (let n = (of_char c :: nat) in
     (65 \<le> n \<and> n \<le> 90) \<or> (97 \<le> n \<and> n \<le> 122) \<or> (48 \<le> n \<and> n \<le> 57))"

text \<open>\<^verbatim>\<open>hay.includes(needle)\<close>: the needle occurs at some position of the haystack.\<close>

fun str_includes :: "string \<Rightarrow> string \<Rightarrow> bool" where
  "str_includes [] needle = (needle = [])"
| "str_includes (c # cs) needle = (prefix needle (c # cs) \<or> str_includes cs needle)"

text \<open>\<^verbatim>\<open>s.split(sep)\<close> for a separator that matches exactly one character: the pieces
  between the separators, empty pieces kept; the empty string gives one empty piece.\<close>

fun cons_first :: "char \<Rightarrow> string list \<Rightarrow> string list" where
  "cons_first c [] = [[c]]"
| "cons_first c (w # ws) = (c # w) # ws"

fun split_on :: "(char \<Rightarrow> bool) \<Rightarrow> string \<Rightarrow> string list" where
  "split_on p [] = [[]]"
| "split_on p (c # cs) =
     (if p c then [] # split_on p cs else cons_first c (split_on p cs))"

text \<open>\<^verbatim>\<open>s.split(/\r?\n/)\<close>: a line ends at a line feed, or at a carriage return that a
  line feed follows; a carriage return alone ends no line.\<close>

fun split_lines :: "string \<Rightarrow> string list" where
  "split_lines [] = [[]]"
| "split_lines [c] = (if c = CHR 0x0A then [[], []] else [[c]])"
| "split_lines (c # d # cs) =
     (if c = CHR 0x0A then [] # split_lines (d # cs)
      else if c = CHR 0x0D \<and> d = CHR 0x0A then [] # split_lines cs
      else cons_first c (split_lines (d # cs)))"

text \<open>Decimal digits of a number, as a template literal prints it.\<close>

fun string_of_nat :: "nat \<Rightarrow> string" where
  "string_of_nat n =
     (if n < 10 then [char_of (48 + n)]
      else string_of_nat (n div 10) @ [char_of (48 + n mod 10)])"

declare string_of_nat.simps [simp del]

text \<open>\<^verbatim>\<open>parts.join(sep)\<close>.\<close>

fun join :: "string \<Rightarrow> string list \<Rightarrow> string" where
  "join sep [] = []"
| "join sep [w] = w"
| "join sep (w # v # ws) = w @ sep @ join sep (v # ws)"

section \<open>Errors\<close>

text \<open>A thrown value: an \<^verbatim>\<open>AIError\<close> with its message and code, or another
  \<^verbatim>\<open>Error\<close> with its name and message.\<close>

datatype exn = AIError string string | OtherError string string

fun message :: "exn \<Rightarrow> string" where
  "message (AIError m c) = m"
| "message (OtherError n m) = m"

fun fails_with :: "exn + 'a \<Rightarrow> string \<Rightarrow> bool" where
  "fails_with (Inl (AIError m c)) cd = (c = cd)"
| "fails_with (Inl (OtherError n m)) cd = False"
| "fails_with (Inr v) cd = False"

section \<open>Static configuration\<close>

definition ADMIN_COMMANDS :: "string list" where
  "ADMIN_COMMANDS = [''netsh'', ''net'', ''sc'', ''reg'', ''bcdedit'', ''diskpart'', ''dism'', ''sfc'',
     ''format'', ''chkdsk'', ''taskkill'', ''rd /s'', ''rmdir /s'', ''del /f'',
     ''takeown'', ''icacls'', ''attrib'', ''runas'']"

definition TIMEOUT :: nat where "TIMEOUT = 30000"
definition MAX_RETRIES :: nat where "MAX_RETRIES = 3"
definition RETRY_DELAY :: nat where "RETRY_DELAY = 1000"

section \<open>removeCommandRepetitions\<close>

definition removeCommandRepetitions :: "string \<Rightarrow> string" where
  "removeCommandRepetitions command =
     (let trimmedCommand = trim command;
          len = length trimmedCommand
      in if len mod 2 \<noteq> 0 then trimmedCommand
         else let halfLength = len div 2;
                  firstHalf = take halfLength trimmedCommand;
                  secondHalf = drop halfLength trimmedCommand
              in if firstHalf = secondHalf then firstHalf else trimmedCommand)"

section \<open>validateCommand\<close>

definition requiresAdminPrivileges :: "string \<Rightarrow> bool" where
  "requiresAdminPrivileges command =
     (let commandLower = toLowerCase command
      in list_ex (\<lambda>adminCmd. str_includes commandLower (toLowerCase adminCmd)) ADMIN_COMMANDS)"

text \<open>The number of matches of \<^verbatim>\<open>/(?<!>)>/g\<close>: the \<^verbatim>\<open>>\<close> characters whose preceding
  character, if there is one, is not \<^verbatim>\<open>>\<close>. The first argument is the preceding
  character.\<close>

fun count_redir :: "char option \<Rightarrow> string \<Rightarrow> nat" where
  "count_redir prev [] = 0"
| "count_redir prev (c # cs) =
     (if c = CHR ''>'' \<and> prev \<noteq> Some (CHR ''>'') then 1 else 0) + count_redir (Some c) cs"

definition redirectionCount :: "string \<Rightarrow> nat" where
  "redirectionCount segment = count_redir None segment"

definition isSegmentSeparator :: "char \<Rightarrow> bool" where
  "isSegmentSeparator c = (c = CHR ''&'' \<or> c = CHR ''|'')"

text \<open>The loop over the segments: the first segment with more than one redirection throws.\<close>

fun checkSegments :: "string list \<Rightarrow> exn + unit" where
  "checkSegments [] = Inr ()"
| "checkSegments (segment # rest) =
     (if redirectionCount segment > 1
      then Inl (AIError ''Too many output redirections in a single command segment''
                 ''INVALID_REDIRECTION'')
      else checkSegments rest)"

definition validateCommand :: "string \<Rightarrow> exn + unit" where
  "validateCommand command =
     (if command = [] then Inl (AIError ''Command is empty after cleaning'' ''EMPTY_COMMAND'')
      else if requiresAdminPrivileges command
        then Inl (AIError ''This command requires administrator privileges'' ''ADMIN_REQUIRED'')
      else checkSegments (split_on isSegmentSeparator command))"

section \<open>The parsed completion\<close>

text \<open>
  The value \<^verbatim>\<open>response.json()\<close> yields. An object is the list of its own properties
  (each name once). Of a number only whether it is zero matters below, so an integer
  stands for it.
\<close>

datatype json =
    JNull
  | JBool bool
  | JNum int
  | JStr string
  | JArr "json list"
  | JObj "(string \<times> json) list"

text \<open>\<^verbatim>\<open>v?.name\<close> for a name that no built-in prototype defines (\<^verbatim>\<open>choices\<close>,
  \<^verbatim>\<open>message\<close>, \<^verbatim>\<open>content\<close>): \<open>None\<close> is \<^verbatim>\<open>undefined\<close>.\<close>

fun getProp :: "json option \<Rightarrow> string \<Rightarrow> json option" where
  "getProp (Some (JObj kvs)) name = map_of kvs name"
| "getProp v name = None"

text \<open>\<^verbatim>\<open>v?.[0]\<close>: the first element of an array, the property \<^verbatim>\<open>0\<close> of an object, the
  first character of a string.\<close>

fun getIndex0 :: "json option \<Rightarrow> json option" where
  "getIndex0 (Some (JArr [])) = None"
| "getIndex0 (Some (JArr (x # xs))) = Some x"
| "getIndex0 (Some (JObj kvs)) = map_of kvs ''0''"
| "getIndex0 (Some (JStr [])) = None"
| "getIndex0 (Some (JStr (c # cs))) = Some (JStr [c])"
| "getIndex0 v = None"

text \<open>\<^verbatim>\<open>data?.choices?.[0]?.message?.content\<close>\<close>

definition contentOf :: "json \<Rightarrow> json option" where
  "contentOf data = getProp (getProp (getIndex0 (getProp (Some data) ''choices'')) ''message'') ''content''"

text \<open>Truthiness, \<^verbatim>\<open>!!v\<close>.\<close>

fun truthy :: "json option \<Rightarrow> bool" where
  "truthy None = False"
| "truthy (Some JNull) = False"
| "truthy (Some (JBool b)) = b"
| "truthy (Some (JNum n)) = (n \<noteq> 0)"
| "truthy (Some (JStr s)) = (s \<noteq> [])"
| "truthy (Some (JArr xs)) = True"
| "truthy (Some (JObj kvs)) = True"

section \<open>validateResponse\<close>

text \<open>A truthy content that is no string has no \<^verbatim>\<open>trim\<close> method: the call throws a
  \<^verbatim>\<open>TypeError\<close>.\<close>

definition validateResponse :: "json \<Rightarrow> exn + string" where
  "validateResponse data =
     (if \<not> truthy (contentOf data)
      then Inl (AIError ''Invalid or empty response from AI'' ''INVALID_RESPONSE'')
      else case contentOf data of
        Some (JStr raw) \<Rightarrow>
          (let content = trim raw in
           if content = [] then Inl (AIError ''AI returned an empty command'' ''EMPTY_COMMAND'')
           else let lines = map trim (split_lines content) in
             case find (\<lambda>line. length line > 0) lines of
               None \<Rightarrow> Inl (AIError ''No valid command found in AI response'' ''INVALID_RESPONSE'')
             | Some firstValidLine \<Rightarrow> Inr (removeCommandRepetitions firstValidLine))
      | _ \<Rightarrow> Inl (OtherError ''TypeError'' ''data.choices[0].message.content.trim is not a function''))"

section \<open>fetchWithRetry\<close>

text \<open>
  What one call of \<^verbatim>\<open>fetch\<close> does: it resolves with a response, or it rejects with an
  \<^verbatim>\<open>Error\<close> (name and message), or with a value that is no \<^verbatim>\<open>Error\<close>. Of a response
  the model keeps the status, what \<^verbatim>\<open>response.text()\<close> yields (read only when the status is
  not 2xx) and what \<^verbatim>\<open>response.json()\<close> yields (read only when it is; \<open>None\<close> when the
  body is no JSON and the call throws). The timer that aborts a call after
  \<^verbatim>\<open>TIMEOUT\<close> milliseconds makes \<^verbatim>\<open>fetch\<close> reject with an error named \<^verbatim>\<open>AbortError\<close>.
  The network is a function from the number of the attempt to its outcome.
\<close>

datatype fetch_outcome =
    Responded nat string "json option"
  | Rejected string string
  | RejectedNonError

text \<open>The effects a caller can observe: a network call, and a delay in milliseconds.\<close>

datatype event = Fetch | Sleep nat

text \<open>\<^verbatim>\<open>response.ok\<close>\<close>

definition ok :: "nat \<Rightarrow> bool" where
  "ok status = (200 \<le> status \<and> status \<le> 299)"

text \<open>The \<^verbatim>\<open>try\<close> block of one attempt: it returns the response (status, text, parsed
  body), or it throws; the thrown value is an error, or \<open>None\<close> for a value that is no
  \<^verbatim>\<open>Error\<close>. A response that is not \<^verbatim>\<open>ok\<close> throws an \<^verbatim>\<open>AIError\<close>.\<close>

fun attemptOnce :: "fetch_outcome \<Rightarrow> exn option + nat \<times> string \<times> json option" where
  "attemptOnce (Responded status body js) =
     (if \<not> ok status
      then Inl (Some (AIError (''API returned '' @ string_of_nat status @ '': '' @ body) ''API_ERROR''))
      else Inr (status, body, js))"
| "attemptOnce (Rejected nm msg) = Inl (Some (OtherError nm msg))"
| "attemptOnce RejectedNonError = Inl None"

text \<open>\<^verbatim>\<open>error instanceof Error ? error : new Error('Unknown error')\<close>\<close>

fun asError :: "exn option \<Rightarrow> exn" where
  "asError (Some e) = e"
| "asError None = OtherError ''Error'' ''Unknown error''"

text \<open>\<^verbatim>\<open>error instanceof Error && error.name === 'AbortError'\<close>; the name of an
  \<^verbatim>\<open>AIError\<close> is \<^verbatim>\<open>AIError\<close>.\<close>

fun isAbort :: "exn option \<Rightarrow> bool" where
  "isAbort (Some (OtherError nm msg)) = (nm = ''AbortError'')"
| "isAbort v = False"

text \<open>\<^verbatim>\<open>lastError?.message\<close> inside a template literal.\<close>

fun lastMessage :: "exn option \<Rightarrow> string" where
  "lastMessage None = ''undefined''"
| "lastMessage (Some e) = message e"

text \<open>The loop of \<^verbatim>\<open>fetchWithRetry\<close> from attempt number \<open>attempt\<close> on, with the last
  error and the effects so far; it returns the response (status, text, parsed body) or the
  thrown error, and the effects.\<close>

function retryLoop ::
  "(nat \<Rightarrow> fetch_outcome) \<Rightarrow> nat \<Rightarrow> exn option \<Rightarrow> event list
     \<Rightarrow> (exn + nat \<times> string \<times> json option) \<times> event list" where
  "retryLoop net attempt lastError trace =
     (if attempt \<le> MAX_RETRIES then
        (case attemptOnce (net attempt) of
           Inr response \<Rightarrow> (Inr response, trace @ [Fetch])
         | Inl error \<Rightarrow>
             if isAbort error then (Inl (AIError ''Request timed out'' ''TIMEOUT''), trace @ [Fetch])
             else if attempt = MAX_RETRIES
               then (Inl (AIError (''Failed after '' @ string_of_nat MAX_RETRIES @ '' attempts: ''
                            @ lastMessage (Some (asError error))) ''MAX_RETRIES_EXCEEDED''),
                     trace @ [Fetch])
             else retryLoop net (attempt + 1) (Some (asError error))
                    (trace @ [Fetch, Sleep (RETRY_DELAY * attempt)]))
      else (Inl (AIError (''Failed after '' @ string_of_nat MAX_RETRIES @ '' attempts: ''
                   @ lastMessage lastError) ''MAX_RETRIES_EXCEEDED''), trace))"
  by pat_completeness auto
termination
  by (relation "measure (\<lambda>(net, attempt, lastError, trace). Suc MAX_RETRIES - attempt)") auto

declare retryLoop.simps [simp del]

definition fetchWithRetry ::
  "(nat \<Rightarrow> fetch_outcome) \<Rightarrow> (exn + nat \<times> string \<times> json option) \<times> event list" where
  "fetchWithRetry net = retryLoop net 1 None []"

text \<open>The two kinds of failing attempt the retry policy tells apart: an attempt that
  timed out, and an attempt that failed otherwise (a status that is not 2xx, or a transport
  error), with the message of its error.\<close>

fun timed_out :: "fetch_outcome \<Rightarrow> bool" where
  "timed_out (Rejected nm msg) = (nm = ''AbortError'')"
| "timed_out out = False"

fun failure_message :: "fetch_outcome \<Rightarrow> string option" where
  "failure_message (Responded status body js) =
     (if 200 \<le> status \<and> status \<le> 299 then None
      else Some (''API returned '' @ string_of_nat status @ '': '' @ body))"
| "failure_message (Rejected nm msg) = (if nm = ''AbortError'' then None else Some msg)"
| "failure_message RejectedNonError = Some ''Unknown error''"

section \<open>generateCommand\<close>

text \<open>The \<^verbatim>\<open>catch\<close> of \<^verbatim>\<open>generateCommand\<close>: an \<^verbatim>\<open>AIError\<close> is thrown on, anything else
  becomes a plain \<^verbatim>\<open>Error\<close>.\<close>

fun rethrow :: "exn \<Rightarrow> exn" where
  "rethrow (AIError m c) = AIError m c"
| "rethrow (OtherError nm m) = OtherError ''Error'' ''An unexpected error occurred during command generation''"

text \<open>The result is the one-element tuple \<^verbatim>\<open>[command]\<close>, or the thrown error; with it
  the effects on the network and the clock.\<close>

definition generateCommand ::
  "string \<Rightarrow> (nat \<Rightarrow> fetch_outcome) \<Rightarrow> (exn + string list) \<times> event list" where
  "generateCommand userInput net =
     (if trim userInput = [] then (Inl (AIError ''User input is required'' ''INVALID_INPUT''), [])
      else case fetchWithRetry net of
        (Inl e, trace) \<Rightarrow> (Inl (rethrow e), trace)
      | (Inr (status, body, js), trace) \<Rightarrow>
          (case js of
             None \<Rightarrow> (Inl (rethrow (OtherError ''SyntaxError'' ''Unexpected token'')), trace)
           | Some data \<Rightarrow>
               (case validateResponse data of
                  Inl e \<Rightarrow> (Inl (rethrow e), trace)
                | Inr command \<Rightarrow>
                    (case validateCommand command of
                       Inl e \<Rightarrow> (Inl (rethrow e), trace)
                     | Inr u \<Rightarrow> (Inr [command], trace)))))"

section \<open>cleanCommand\<close>

text \<open>A match of \<^verbatim>\<open>/https?:\/\/[^\s]+/\<close> at the start of a string: the scheme, then the
  longest run of one or more characters that are no white space. The result is the match
  and the text after it.\<close>

definition urlPrefixLength :: "string \<Rightarrow> nat option" where
  "urlPrefixLength s =
     (if prefix ''https://'' s then Some 8 else if prefix ''http://'' s then Some 7 else None)"

definition matchUrl :: "string \<Rightarrow> (string \<times> string) option" where
  "matchUrl s =
     (case urlPrefixLength s of
        None \<Rightarrow> None
      | Some n \<Rightarrow>
          (let body = takeWhile (\<lambda>c. \<not> isWhiteSpace c) (drop n s) in
           if body = [] then None
           else Some (take n s @ body, dropWhile (\<lambda>c. \<not> isWhiteSpace c) (drop n s))))"

text \<open>The placeholder \<^verbatim>\<open>__URL${index}__\<close>.\<close>

definition placeholder :: "nat \<Rightarrow> string" where
  "placeholder index = ''__URL'' @ string_of_nat index @ ''__''"

text \<open>\<^verbatim>\<open>cleanedCommand.replace(/(https?:\/\/[^\s]+)/g, ...)\<close>: every match, from left to
  right, is pushed onto \<open>urls\<close> and replaced by the placeholder of its index. The result is
  the new text and the list of URLs.\<close>

function replaceUrls :: "string list \<Rightarrow> string \<Rightarrow> string \<times> string list" where
  "replaceUrls urls [] = ([], urls)"
| "replaceUrls urls (c # cs) =
     (case matchUrl (c # cs) of
        Some (m, rest) \<Rightarrow>
          (case replaceUrls (urls @ [m]) rest of
             (out, urls') \<Rightarrow> (placeholder (length urls) @ out, urls'))
      | None \<Rightarrow>
          (case replaceUrls urls cs of (out, urls') \<Rightarrow> (c # out, urls')))"
  by pat_completeness auto
termination
proof (relation "measure (\<lambda>(urls, s). length s)")
  show "wf (measure (\<lambda>(urls, s). length s))" by simp
next
  fix urls :: "string list" and c cs x2 m rest
  assume "matchUrl (c # cs) = Some x2" and "(m, rest) = x2"
  then have a: "matchUrl (c # cs) = Some (m, rest)" by simp
  then obtain n where n: "urlPrefixLength (c # cs) = Some n"
    by (cases "urlPrefixLength (c # cs)") (auto simp: matchUrl_def)
  then have "0 < n"
    by (auto simp: urlPrefixLength_def split: if_splits)
  moreover from a n have "rest = dropWhile (\<lambda>c. \<not> isWhiteSpace c) (drop n (c # cs))"
    by (auto simp: matchUrl_def Let_def split: if_splits)
  then have "length rest \<le> length (c # cs) - n"
    by (metis length_drop length_dropWhile_le)
  ultimately have "length rest < length (c # cs)" by simp
  then show "((urls @ [m], rest), urls, c # cs) \<in> measure (\<lambda>(urls, s). length s)" by simp
next
  fix urls :: "string list" and c :: char and cs :: string
  show "((urls, cs), urls, c # cs) \<in> measure (\<lambda>(urls, s). length s)" by simp
qed

declare replaceUrls.simps [simp del]

text \<open>The lookup \<^verbatim>\<open>commonCommands[firstWord]\<close> in the object literal. The key is in lower
  case; besides the five own properties the object inherits two properties with a
  lower-case name from \<^verbatim>\<open>Object.prototype\<close>, \<^verbatim>\<open>constructor\<close> and \<^verbatim>\<open>__proto__\<close>, which are
  truthy and no arrays.\<close>

datatype lookup = Params "string list" | Inherited | Missing

definition commonCommands :: "string \<Rightarrow> lookup" where
  "commonCommands key =
     (if key = ''ipconfig'' then Params [''/all'', ''/release'', ''/renew'', ''/flushdns'']
      else if key = ''dir'' then Params [''/a'', ''/b'', ''/s'', ''/w'', ''/p'', ''/o'', ''/ad'']
      else if key = ''netstat'' then Params [''-a'', ''-n'', ''-b'', ''-o'']
      else if key = ''ping'' then Params [''-t'', ''-a'', ''-n'', ''-l'']
      else if key = ''curl'' then Params [''-s'', ''-o'', ''-L'', ''-I'', ''-H'']
      else if key = ''constructor'' \<or> key = ''__proto__'' then Inherited
      else Missing)"

text \<open>\<^verbatim>\<open>cleanedCommand.match(/\/[a-zA-Z]+|-[a-zA-Z]+/g) || []\<close>: the matches from left to
  right, each a slash or a dash with the longest run of one or more letters after it.\<close>

function paramMatches :: "string \<Rightarrow> string list" where
  "paramMatches [] = []"
| "paramMatches (c # cs) =
     (if (c = CHR ''/'' \<or> c = CHR ''-'') \<and> takeWhile isAsciiLetter cs \<noteq> []
      then (c # takeWhile isAsciiLetter cs) # paramMatches (dropWhile isAsciiLetter cs)
      else paramMatches cs)"
  by pat_completeness auto
termination
  by (relation "measure length") (auto simp: less_Suc_eq_le length_dropWhile_le)

declare paramMatches.simps [simp del]

text \<open>The \<^verbatim>\<open>forEach\<close> that fills the set \<open>params\<close>; a set keeps the order of insertion.\<close>

fun collectParams :: "string list \<Rightarrow> string list \<Rightarrow> string list \<Rightarrow> string list" where
  "collectParams validParams params [] = params"
| "collectParams validParams params (param # rest) =
     collectParams validParams
       (if toLowerCase param \<in> set validParams
        then (if toLowerCase param \<in> set params then params else params @ [toLowerCase param])
        else params)
       rest"

text \<open>The branch for an unknown command: the first part, and the parts after it up to the
  first one that equals it without regard to case.\<close>

definition unknownCommand :: "string list \<Rightarrow> string" where
  "unknownCommand parts =
     (let baseCommand = hd parts;
          parameters = takeWhile (\<lambda>part. toLowerCase part \<noteq> toLowerCase baseCommand) (tl parts)
      in baseCommand @ (if parameters \<noteq> [] then '' '' @ join '' '' parameters else []))"

text \<open>The text a replacement string stands for in \<^verbatim>\<open>String.prototype.replace\<close> with a
  string pattern: \<^verbatim>\<open>$$\<close> is a dollar sign, \<^verbatim>\<open>$&\<close> the match, \<^verbatim>\<open>$`\<close> the text before the
  match and \<^verbatim>\<open>$'\<close> the text after it.\<close>

fun expandReplacement :: "string \<Rightarrow> string \<Rightarrow> string \<Rightarrow> string \<Rightarrow> string" where
  "expandReplacement pre matched post [] = []"
| "expandReplacement pre matched post [c] = [c]"
| "expandReplacement pre matched post (c # d # r) =
     (if c = CHR ''$'' \<and> d = CHR ''$'' then CHR ''$'' # expandReplacement pre matched post r
      else if c = CHR ''$'' \<and> d = CHR ''&'' then matched @ expandReplacement pre matched post r
      else if c = CHR ''$'' \<and> d = CHR 0x60 then pre @ expandReplacement pre matched post r
      else if c = CHR ''$'' \<and> d = CHR 0x27 then post @ expandReplacement pre matched post r
      else c # expandReplacement pre matched post (d # r))"

text \<open>The first occurrence of a needle: the text before it and the text after it.\<close>

fun findFirst :: "string \<Rightarrow> string \<Rightarrow> (string \<times> string) option" where
  "findFirst [] needle = (if needle = [] then Some ([], []) else None)"
| "findFirst (c # cs) needle =
     (if prefix needle (c # cs) then Some ([], drop (length needle) (c # cs))
      else case findFirst cs needle of
             None \<Rightarrow> None
           | Some (pre, post) \<Rightarrow> Some (c # pre, post))"

text \<open>\<^verbatim>\<open>hay.replace(needle, replacement)\<close> with a string needle: the first occurrence
  only.\<close>

definition replaceFirst :: "string \<Rightarrow> string \<Rightarrow> string \<Rightarrow> string" where
  "replaceFirst hay needle replacement =
     (case findFirst hay needle of
        None \<Rightarrow> hay
      | Some (pre, post) \<Rightarrow>
          pre @ expandReplacement pre needle post replacement @ post)"

text \<open>\<^verbatim>\<open>urls.forEach((url, index) => ...)\<close>, from the given index on.\<close>

fun restoreUrls :: "nat \<Rightarrow> string list \<Rightarrow> string \<Rightarrow> string" where
  "restoreUrls index [] cleaned = cleaned"
| "restoreUrls index (url # urls) cleaned =
     restoreUrls (index + 1) urls (replaceFirst cleaned (placeholder index) url)"

text \<open>\<^verbatim>\<open>replace(/(?<!http:|https:)\/\//g, '\\')\<close>: from left to right, two slashes that
  neither \<^verbatim>\<open>http:\<close> nor \<^verbatim>\<open>https:\<close> precedes become one backslash. The first argument is
  the text already passed.\<close>

fun fixSeparators :: "string \<Rightarrow> string \<Rightarrow> string" where
  "fixSeparators pre [] = []"
| "fixSeparators pre [c] = [c]"
| "fixSeparators pre (c # d # cs) =
     (if c = CHR ''/'' \<and> d = CHR ''/'' \<and> \<not> suffix ''http:'' pre \<and> \<not> suffix ''https:'' pre
      then CHR 0x5C # fixSeparators (pre @ [c, d]) cs
      else c # fixSeparators (pre @ [c]) (d # cs))"

text \<open>The last two steps of \<^verbatim>\<open>cleanCommand\<close>: the separators, and the test
  \<^verbatim>\<open>/^[^a-zA-Z0-9]/\<close>.\<close>

definition finishCommand :: "string \<Rightarrow> exn + string" where
  "finishCommand restored =
     (let cleanedCommand = fixSeparators [] restored in
      if cleanedCommand \<noteq> [] \<and> \<not> isAsciiAlnum (hd cleanedCommand)
      then Inl (AIError ''Invalid command structure'' ''INVALID_COMMAND'')
      else Inr cleanedCommand)"

text \<open>A split never yields an empty list, so \<open>hd parts\<close> is the first part. With an
  inherited property for \<open>validParams\<close>, the call \<^verbatim>\<open>validParams.includes\<close> throws a
  \<^verbatim>\<open>TypeError\<close> at the first match.\<close>

definition cleanCommand :: "string \<Rightarrow> exn + string" where
  "cleanCommand command =
     (case replaceUrls [] (trim command) of
        (cleanedCommand, urls) \<Rightarrow>
          (let parts = split_on (\<lambda>c. c = CHR '' '') cleanedCommand;
               firstWord = toLowerCase (hd parts)
           in case commonCommands firstWord of
                Params validParams \<Rightarrow>
                  finishCommand (restoreUrls 0 urls
                    (firstWord @ '' '' @
                       join '' '' (collectParams validParams [] (paramMatches cleanedCommand))))
              | Inherited \<Rightarrow>
                  if paramMatches cleanedCommand \<noteq> []
                  then Inl (OtherError ''TypeError'' ''validParams.includes is not a function'')
                  else finishCommand (restoreUrls 0 urls (firstWord @ '' '' @ join '' '' []))
              | Missing \<Rightarrow> finishCommand (restoreUrls 0 urls (unknownCommand parts))))"

section \<open>Predicates on command text\<close>

text \<open>A string without leading or trailing white space.\<close>

definition trimmed :: "string \<Rightarrow> bool" where
  "trimmed t = (t = [] \<or> (\<not> isWhiteSpace (hd t) \<and> \<not> isWhiteSpace (last t)))"

text \<open>A text in which no slash follows a slash.\<close>

fun noDoubleSlash :: "string \<Rightarrow> bool" where
  "noDoubleSlash [] = True"
| "noDoubleSlash [c] = True"
| "noDoubleSlash (c # d # r) = (\<not> (c = CHR ''/'' \<and> d = CHR ''/'') \<and> noDoubleSlash (d # r))"

text \<open>A text that holds no beginning of a placeholder.\<close>

definition noPlaceholderText :: "string \<Rightarrow> bool" where
  "noPlaceholderText s = (\<not> str_includes s ''__URL'')"

text \<open>A text that holds none of the patterns \<^verbatim>\<open>$$\<close>, \<^verbatim>\<open>$&\<close>, \<^verbatim>\<open>$`\<close>, \<^verbatim>\<open>$'\<close> of a
  replacement string.\<close>

fun noReplacementPattern :: "string \<Rightarrow> bool" where
  "noReplacementPattern [] = True"
| "noReplacementPattern [c] = True"
| "noReplacementPattern (c # d # r) =
     (\<not> (c = CHR ''$'' \<and> (d = CHR ''$'' \<or> d = CHR ''&'' \<or> d = CHR 0x60 \<or> d = CHR 0x27))
      \<and> noReplacementPattern (d # r))"

text \<open>A URL from the second slash of its scheme separator on: \<^verbatim>\<open>/host/path\<close> for
  \<^verbatim>\<open>http://host/path\<close>. It holds no two slashes in a row exactly when the URL holds
  two slashes in a row in its scheme separator only.\<close>

definition urlTail :: "string \<Rightarrow> string" where
  "urlTail url = (if prefix ''https://'' url then drop 7 url else drop 6 url)"

text \<open>The first word of a text as white space delimits it.\<close>

definition firstWhitespaceWord :: "string \<Rightarrow> string" where
  "firstWhitespaceWord s = takeWhile (\<lambda>c. \<not> isWhiteSpace c) (dropWhile isWhiteSpace s)"

section \<open>Properties of trim and the repetition collapser\<close>

lemma dropWhile_hd: "dropWhile P xs \<noteq> [] \<Longrightarrow> \<not> P (hd (dropWhile P xs))"
  by (metis hd_dropWhile)

lemma dropWhile_id: "xs \<noteq> [] \<Longrightarrow> \<not> P (hd xs) \<Longrightarrow> dropWhile P xs = xs"
  by (cases xs) simp_all


lemma trim_of_trimmed: "trimmed t \<Longrightarrow> trim t = t"
proof (cases "t = []")
  case True then show ?thesis by (simp add: trim_def)
next
  case False
  assume "trimmed t"
  with False have h: "\<not> isWhiteSpace (hd t)" and l: "\<not> isWhiteSpace (last t)"
    by (auto simp: trimmed_def)
  from False h have 1: "dropWhile isWhiteSpace t = t" by (rule dropWhile_id)
  from False have "hd (rev t) = last t" by (simp add: hd_rev)
  with False l have 2: "dropWhile isWhiteSpace (rev t) = rev t" by (intro dropWhile_id) simp_all
  show ?thesis by (simp add: trim_def 1 2)
qed

lemma trimmed_trim: "trimmed (trim s)"
proof -
  let ?a = "dropWhile isWhiteSpace s"
  let ?b = "dropWhile isWhiteSpace (rev ?a)"
  show ?thesis
  proof (cases "?b = []")
    case True then show ?thesis by (simp add: trim_def trimmed_def)
  next
    case False
    then have nb: "\<not> isWhiteSpace (hd ?b)" by (rule dropWhile_hd)
    have na: "?a \<noteq> []"
    proof
      assume a: "?a = []"
      have "?b = []" unfolding a by simp
      with False show False by simp
    qed
    then have ha: "\<not> isWhiteSpace (hd ?a)" by (rule dropWhile_hd)
    obtain pre where pre: "rev ?a = pre @ ?b"
      by (metis takeWhile_dropWhile_id)
    then have "?a = rev ?b @ rev pre" by (metis rev_append rev_rev_ident)
    with False have "hd (rev ?b) = hd ?a" by (metis hd_append2 rev_is_Nil_conv)
    moreover have "last (rev ?b) = hd ?b" using False by (simp add: last_rev)
    ultimately show ?thesis using nb ha False by (simp add: trim_def trimmed_def)
  qed
qed

lemma trim_trim: "trim (trim s) = trim s"
  by (rule trim_of_trimmed[OF trimmed_trim])

lemma trimmed_half: "trimmed (h @ h) \<Longrightarrow> trimmed h"
  by (cases "h = []") (auto simp: trimmed_def)

lemma rcr_doubled: "trim s = h @ h \<Longrightarrow> removeCommandRepetitions s = h"
  by (simp add: removeCommandRepetitions_def Let_def)

lemma rcr_not_doubled:
  assumes "\<forall>h. trim s \<noteq> h @ h" shows "removeCommandRepetitions s = trim s"
proof -
  let ?t = "trim s"
  have "take (length ?t div 2) ?t \<noteq> drop (length ?t div 2) ?t"
  proof
    assume e: "take (length ?t div 2) ?t = drop (length ?t div 2) ?t"
    have "?t = take (length ?t div 2) ?t @ drop (length ?t div 2) ?t" by simp
    with e have "?t = drop (length ?t div 2) ?t @ drop (length ?t div 2) ?t" by simp
    with assms show False by blast
  qed
  then show ?thesis by (simp add: removeCommandRepetitions_def Let_def)
qed

lemma rcr_cases:
  "(\<exists>h. trim s = h @ h \<and> removeCommandRepetitions s = h) \<or> removeCommandRepetitions s = trim s"
  using rcr_doubled rcr_not_doubled by blast

lemma trimmed_rcr: "trimmed (removeCommandRepetitions s)"
  using rcr_cases[of s] trimmed_trim[of s] trimmed_half by metis

lemma rcr_twice:
  "removeCommandRepetitions (removeCommandRepetitions s) = removeCommandRepetitions s
     \<longleftrightarrow> (\<forall>h. h \<noteq> [] \<longrightarrow> removeCommandRepetitions s \<noteq> h @ h)"
proof -
  let ?r = "removeCommandRepetitions s"
  have t: "trim ?r = ?r" by (rule trim_of_trimmed[OF trimmed_rcr])
  show ?thesis
  proof
    assume i: "removeCommandRepetitions ?r = ?r"
    show "\<forall>h. h \<noteq> [] \<longrightarrow> ?r \<noteq> h @ h"
    proof (intro allI impI notI)
      fix h :: string assume "h \<noteq> []" and d: "?r = h @ h"
      from d t have "removeCommandRepetitions ?r = h" by (simp add: rcr_doubled)
      with i d have "h @ h = h" by simp
      with \<open>h \<noteq> []\<close> show False by simp
    qed
  next
    assume n: "\<forall>h. h \<noteq> [] \<longrightarrow> ?r \<noteq> h @ h"
    show "removeCommandRepetitions ?r = ?r"
    proof (cases "\<exists>h. ?r = h @ h")
      case True
      then obtain h where d: "?r = h @ h" by blast
      with n have "h = []" by blast
      with d t show ?thesis using rcr_doubled[of ?r "[]"] by simp
    next
      case False
      with t show ?thesis using rcr_not_doubled[of ?r] by simp
    qed
  qed
qed

text \<open>
  Claim C5, as amended. For every string \<open>s\<close> the collapser works on \<open>trim s\<close>: when the
  trimmed string is some \<open>h\<close> written twice, the result is \<open>h\<close>; when the trimmed string
  is no doubled string, the result is the trimmed string (the input itself when it has no
  surrounding white space, as every line handed over by the extractor). Collapsing twice
  equals collapsing once exactly when the first result is not a non-empty doubled string.
\<close>

theorem removeCommandRepetitions_collapse:
  "(trim s = h @ h \<longrightarrow> removeCommandRepetitions s = h)
   \<and> ((\<forall>k. trim s \<noteq> k @ k) \<longrightarrow> removeCommandRepetitions s = trim s)
   \<and> (removeCommandRepetitions (removeCommandRepetitions s) = removeCommandRepetitions s
        \<longleftrightarrow> (\<forall>k. k \<noteq> [] \<longrightarrow> removeCommandRepetitions s \<noteq> k @ k))"
  using rcr_doubled rcr_not_doubled rcr_twice by blast

theorem removeCommandRepetitions_collapse_witness: "trim ''abab'' = ''ab'' @ ''ab'' \<and> removeCommandRepetitions ''abab'' = ''ab''"
proof -
  have h: "trim ''abab'' = ''ab'' @ ''ab''" by (simp add: trim_def isWhiteSpace_def)
  from removeCommandRepetitions_collapse[of "''abab''" "''ab''"] h show ?thesis by blast
qed

text \<open>
  Claim C5 as stated fails: collapsing \<open>aaaa\<close> gives \<open>aa\<close>, which collapses again to
  \<open>a\<close>, so the collapser is not idempotent; and a string with surrounding white space that
  is no doubled string is returned trimmed, not unchanged.
\<close>

theorem removeCommandRepetitions_not_idempotent: "removeCommandRepetitions (removeCommandRepetitions ''aaaa'') \<noteq> removeCommandRepetitions ''aaaa''
   \<and> removeCommandRepetitions '' a'' \<noteq> '' a''"
  by (simp add: removeCommandRepetitions_def trim_def isWhiteSpace_def Let_def)

section \<open>Properties of the safety validator\<close>

lemma str_includes_iff: "str_includes hay needle \<longleftrightarrow> (\<exists>p q. hay = p @ needle @ q)"
proof (induction hay)
  case Nil
  show ?case by auto
next
  case (Cons c cs)
  show ?case
  proof
    assume "str_includes (c # cs) needle"
    then consider "prefix needle (c # cs)" | "str_includes cs needle" by auto
    then show "\<exists>p q. c # cs = p @ needle @ q"
    proof cases
      case 1
      then obtain q where "c # cs = needle @ q" by (auto simp: prefix_def)
      then have "c # cs = [] @ needle @ q" by simp
      then show ?thesis by blast
    next
      case 2
      with Cons.IH obtain p q where "cs = p @ needle @ q" by blast
      then have "c # cs = (c # p) @ needle @ q" by simp
      then show ?thesis by blast
    qed
  next
    assume "\<exists>p q. c # cs = p @ needle @ q"
    then obtain p q where e: "c # cs = p @ needle @ q" by blast
    show "str_includes (c # cs) needle"
    proof (cases p)
      case Nil
      with e have "prefix needle (c # cs)" by (simp add: prefix_def)
      then show ?thesis by simp
    next
      case (Cons a p')
      with e have "cs = p' @ needle @ q" by simp
      with Cons.IH have "str_includes cs needle" by blast
      then show ?thesis by simp
    qed
  qed
qed

lemma lower_occurrence:
  "(\<exists>p q. toLowerCase c = p @ e @ q) \<longleftrightarrow> (\<exists>p m q. c = p @ m @ q \<and> toLowerCase m = e)"
proof
  assume "\<exists>p q. toLowerCase c = p @ e @ q"
  then obtain p q where "map lowerChar c = p @ e @ q" by (auto simp: toLowerCase_def)
  then have "\<exists>us vs. c = us @ vs \<and> p = map lowerChar us \<and> e @ q = map lowerChar vs"
    by (simp only: map_eq_append_conv)
  then obtain p' r where c: "c = p' @ r" and r: "map lowerChar r = e @ q"
    by metis
  from r have "\<exists>us vs. r = us @ vs \<and> e = map lowerChar us \<and> q = map lowerChar vs"
    by (simp only: map_eq_append_conv)
  then obtain m q' where "r = m @ q'" and "map lowerChar m = e"
    by metis
  with c show "\<exists>p m q. c = p @ m @ q \<and> toLowerCase m = e"
    by (auto simp: toLowerCase_def)
next
  assume "\<exists>p m q. c = p @ m @ q \<and> toLowerCase m = e"
  then obtain p m q where "c = p @ m @ q" and "toLowerCase m = e" by blast
  then have "toLowerCase c = toLowerCase p @ e @ toLowerCase q"
    by (simp add: toLowerCase_def)
  then show "\<exists>p q. toLowerCase c = p @ e @ q" by blast
qed

lemma admin_lower: "e \<in> set ADMIN_COMMANDS \<Longrightarrow> toLowerCase e = e"
  by (auto simp: ADMIN_COMMANDS_def toLowerCase_def lowerChar_def isUpper_def)

lemma requiresAdminPrivileges_iff:
  "requiresAdminPrivileges c \<longleftrightarrow>
     (\<exists>e\<in>set ADMIN_COMMANDS. \<exists>p m q. c = p @ m @ q \<and> toLowerCase m = e)"
proof -
  have "requiresAdminPrivileges c \<longleftrightarrow>
     (\<exists>e\<in>set ADMIN_COMMANDS. \<exists>p q. toLowerCase c = p @ toLowerCase e @ q)"
    by (simp add: requiresAdminPrivileges_def Let_def list_ex_iff str_includes_iff)
  also have "\<dots> \<longleftrightarrow> (\<exists>e\<in>set ADMIN_COMMANDS. \<exists>p q. toLowerCase c = p @ e @ q)"
    by (simp add: admin_lower)
  also have "\<dots> \<longleftrightarrow> (\<exists>e\<in>set ADMIN_COMMANDS. \<exists>p m q. c = p @ m @ q \<and> toLowerCase m = e)"
    by (simp only: lower_occurrence)
  finally show ?thesis .
qed

lemma checkSegments_cases:
  "checkSegments segs = (if \<exists>seg\<in>set segs. 1 < redirectionCount seg
     then Inl (AIError ''Too many output redirections in a single command segment'' ''INVALID_REDIRECTION'')
     else Inr ())"
  by (induction segs) auto

lemma validateCommand_admin_iff:
  "fails_with (validateCommand c) ''ADMIN_REQUIRED'' \<longleftrightarrow> requiresAdminPrivileges c"
proof (cases "c = []")
  case True
  have "\<not> requiresAdminPrivileges []"
    by (simp add: requiresAdminPrivileges_def ADMIN_COMMANDS_def toLowerCase_def)
  with True show ?thesis by (simp add: validateCommand_def)
next
  case False
  then show ?thesis by (simp add: validateCommand_def checkSegments_cases)
qed

text \<open>
  Claim C6. The validator fails with code \<open>ADMIN_REQUIRED\<close> if and only if some part
  \<open>m\<close> of the command text equals, after lower-casing, an entry of the denylist: a
  case-insensitive substring match with no regard to word boundaries. In particular
  \<open>net use Z: \\server\share\<close> is rejected with \<open>ADMIN_REQUIRED\<close>.
\<close>

theorem validateCommand_admin_required:
  "(fails_with (validateCommand c) ''ADMIN_REQUIRED'' \<longleftrightarrow>
      (\<exists>e \<in> {''netsh'', ''net'', ''sc'', ''reg'', ''bcdedit'', ''diskpart'', ''dism'', ''sfc'',
               ''format'', ''chkdsk'', ''taskkill'', ''rd /s'', ''rmdir /s'', ''del /f'',
               ''takeown'', ''icacls'', ''attrib'', ''runas''}.
         \<exists>p m q. c = p @ m @ q \<and> toLowerCase m = e))
   \<and> fails_with (validateCommand (''net use Z: '' @ [CHR 0x5C, CHR 0x5C] @ ''server'' @ [CHR 0x5C] @ ''share''))
        ''ADMIN_REQUIRED''"
proof
  have s: "set ADMIN_COMMANDS = {''netsh'', ''net'', ''sc'', ''reg'', ''bcdedit'', ''diskpart'', ''dism'', ''sfc'',
               ''format'', ''chkdsk'', ''taskkill'', ''rd /s'', ''rmdir /s'', ''del /f'',
               ''takeown'', ''icacls'', ''attrib'', ''runas''}"
    by (simp add: ADMIN_COMMANDS_def)
  show "fails_with (validateCommand c) ''ADMIN_REQUIRED'' \<longleftrightarrow>
      (\<exists>e \<in> {''netsh'', ''net'', ''sc'', ''reg'', ''bcdedit'', ''diskpart'', ''dism'', ''sfc'',
               ''format'', ''chkdsk'', ''taskkill'', ''rd /s'', ''rmdir /s'', ''del /f'',
               ''takeown'', ''icacls'', ''attrib'', ''runas''}.
         \<exists>p m q. c = p @ m @ q \<and> toLowerCase m = e)"
    unfolding validateCommand_admin_iff requiresAdminPrivileges_iff s ..
  show "fails_with (validateCommand (''net use Z: '' @ [CHR 0x5C, CHR 0x5C] @ ''server'' @ [CHR 0x5C] @ ''share''))
        ''ADMIN_REQUIRED''"
    by code_simp
qed

theorem validateCommand_admin_required_witness: "fails_with (validateCommand ''Internet'') ''ADMIN_REQUIRED''"
proof -
  have "''Internet'' = ''Inter'' @ ''net'' @ [] \<and> toLowerCase ''net'' = ''net''"
    by (simp add: toLowerCase_def lowerChar_def isUpper_def)
  then have "\<exists>p m q. ''Internet'' = p @ m @ q \<and> toLowerCase m = ''net''" by blast
  with validateCommand_admin_required[of "''Internet''"] show ?thesis by blast
qed

section \<open>Properties of the retry loop and of the entry point\<close>

lemma failure_attempt:
  "failure_message out = Some msg \<Longrightarrow>
     \<exists>error. attemptOnce out = Inl error \<and> \<not> isAbort error \<and> message (asError error) = msg"
  by (cases out) (auto simp: ok_def split: if_splits)

lemma timed_out_attempt:
  "timed_out out \<Longrightarrow> \<exists>error. attemptOnce out = Inl error \<and> isAbort error"
  by (cases out) auto

lemma three_digits: "string_of_nat 3 = ''3''"
  by code_simp

lemma retry_first:
  assumes "attemptOnce (net 1) = Inl error" "\<not> isAbort error"
  shows "retryLoop net 1 lastError [] = retryLoop net 2 (Some (asError error)) [Fetch, Sleep 1000]"
  using assms
  by (subst retryLoop.simps) (simp add: MAX_RETRIES_def RETRY_DELAY_def numeral_2_eq_2)

lemma retry_second:
  assumes "attemptOnce (net 2) = Inl error" "\<not> isAbort error"
  shows "retryLoop net 2 lastError [Fetch, Sleep 1000] =
         retryLoop net 3 (Some (asError error)) [Fetch, Sleep 1000, Fetch, Sleep 2000]"
  using assms
  by (subst retryLoop.simps) (simp add: MAX_RETRIES_def RETRY_DELAY_def numeral_3_eq_3)

lemma retry_last:
  assumes "attemptOnce (net 3) = Inl error" "\<not> isAbort error"
  shows "retryLoop net 3 lastError trace =
         (Inl (AIError (''Failed after 3 attempts: '' @ message (asError error)) ''MAX_RETRIES_EXCEEDED''),
          trace @ [Fetch])"
  using assms
  by (subst retryLoop.simps) (simp add: MAX_RETRIES_def three_digits)

lemma retry_abort:
  assumes "attempt \<le> 3" "attemptOnce (net attempt) = Inl error" "isAbort error"
  shows "retryLoop net attempt lastError trace =
         (Inl (AIError ''Request timed out'' ''TIMEOUT''), trace @ [Fetch])"
  using assms
  by (subst retryLoop.simps) (simp add: MAX_RETRIES_def)

lemma persistent_failure:
  assumes "failure_message (net 1) = Some m1" "failure_message (net 2) = Some m2"
    "failure_message (net 3) = Some m3"
  shows "fetchWithRetry net =
     (Inl (AIError (''Failed after 3 attempts: '' @ m3) ''MAX_RETRIES_EXCEEDED''),
      [Fetch, Sleep 1000, Fetch, Sleep 2000, Fetch])"
proof -
  obtain e1 where e1: "attemptOnce (net 1) = Inl e1" "\<not> isAbort e1"
    using failure_attempt[OF assms(1)] by blast
  obtain e2 where e2: "attemptOnce (net 2) = Inl e2" "\<not> isAbort e2"
    using failure_attempt[OF assms(2)] by blast
  obtain e3 where e3: "attemptOnce (net 3) = Inl e3" "\<not> isAbort e3" and m3: "message (asError e3) = m3"
    using failure_attempt[OF assms(3)] by blast
  have "fetchWithRetry net = retryLoop net 1 None []"
    by (simp only: fetchWithRetry_def)
  also have "\<dots> = retryLoop net 2 (Some (asError e1)) [Fetch, Sleep 1000]"
    by (rule retry_first[where net=net and error=e1, OF e1])
  also have "\<dots> = retryLoop net 3 (Some (asError e2)) [Fetch, Sleep 1000, Fetch, Sleep 2000]"
    by (rule retry_second[where net=net and error=e2, OF e2])
  also have "\<dots> = (Inl (AIError (''Failed after 3 attempts: '' @ message (asError e3)) ''MAX_RETRIES_EXCEEDED''),
      [Fetch, Sleep 1000, Fetch, Sleep 2000] @ [Fetch])"
    by (rule retry_last[where net=net and error=e3, OF e3])
  finally show ?thesis by (simp only: m3 append.simps)
qed

lemma timeout_first:
  assumes "timed_out (net 1)"
  shows "fetchWithRetry net = (Inl (AIError ''Request timed out'' ''TIMEOUT''), [Fetch])"
proof -
  obtain e1 where e1: "attemptOnce (net 1) = Inl e1" "isAbort e1"
    using timed_out_attempt[OF assms] by blast
  have "fetchWithRetry net = retryLoop net 1 None []"
    by (simp only: fetchWithRetry_def)
  also have "\<dots> = (Inl (AIError ''Request timed out'' ''TIMEOUT''), [] @ [Fetch])"
    by (rule retry_abort[where net=net and error=e1 and attempt=1, OF _ e1]) simp
  finally show ?thesis by (simp only: append.simps)
qed

lemma timeout_second:
  assumes "failure_message (net 1) = Some m1" "timed_out (net 2)"
  shows "fetchWithRetry net = (Inl (AIError ''Request timed out'' ''TIMEOUT''), [Fetch, Sleep 1000, Fetch])"
proof -
  obtain e1 where e1: "attemptOnce (net 1) = Inl e1" "\<not> isAbort e1"
    using failure_attempt[OF assms(1)] by blast
  obtain e2 where e2: "attemptOnce (net 2) = Inl e2" "isAbort e2"
    using timed_out_attempt[OF assms(2)] by blast
  have "fetchWithRetry net = retryLoop net 1 None []"
    by (simp only: fetchWithRetry_def)
  also have "\<dots> = retryLoop net 2 (Some (asError e1)) [Fetch, Sleep 1000]"
    by (rule retry_first[where net=net and error=e1, OF e1])
  also have "\<dots> = (Inl (AIError ''Request timed out'' ''TIMEOUT''), [Fetch, Sleep 1000] @ [Fetch])"
    by (rule retry_abort[where net=net and error=e2 and attempt=2, OF _ e2]) simp
  finally show ?thesis by (simp only: append.simps)
qed

lemma timeout_third:
  assumes "failure_message (net 1) = Some m1" "failure_message (net 2) = Some m2" "timed_out (net 3)"
  shows "fetchWithRetry net = (Inl (AIError ''Request timed out'' ''TIMEOUT''),
           [Fetch, Sleep 1000, Fetch, Sleep 2000, Fetch])"
proof -
  obtain e1 where e1: "attemptOnce (net 1) = Inl e1" "\<not> isAbort e1"
    using failure_attempt[OF assms(1)] by blast
  obtain e2 where e2: "attemptOnce (net 2) = Inl e2" "\<not> isAbort e2"
    using failure_attempt[OF assms(2)] by blast
  obtain e3 where e3: "attemptOnce (net 3) = Inl e3" "isAbort e3"
    using timed_out_attempt[OF assms(3)] by blast
  have "fetchWithRetry net = retryLoop net 1 None []"
    by (simp only: fetchWithRetry_def)
  also have "\<dots> = retryLoop net 2 (Some (asError e1)) [Fetch, Sleep 1000]"
    by (rule retry_first[where net=net and error=e1, OF e1])
  also have "\<dots> = retryLoop net 3 (Some (asError e2)) [Fetch, Sleep 1000, Fetch, Sleep 2000]"
    by (rule retry_second[where net=net and error=e2, OF e2])
  also have "\<dots> = (Inl (AIError ''Request timed out'' ''TIMEOUT''),
           [Fetch, Sleep 1000, Fetch, Sleep 2000] @ [Fetch])"
    by (rule retry_abort[where net=net and error=e3 and attempt=3, OF _ e3]) simp
  finally show ?thesis by (simp only: append.simps)
qed

text \<open>
  Claim C4. When the first three attempts all fail without timing out (a status that is not
  2xx, or a transport error), the client makes exactly three network calls, waits 1000 ms
  after the first and 2000 ms after the second, and throws \<open>MAX_RETRIES_EXCEEDED\<close> with the
  message of the third failure. When an attempt that is reached times out, the client throws
  \<open>TIMEOUT\<close> at once: that attempt is the last network call and no delay follows it.
\<close>

theorem fetchWithRetry_policy:
  "(failure_message (net 1) \<noteq> None \<and> failure_message (net 2) \<noteq> None
      \<and> failure_message (net 3) = Some m \<longrightarrow>
      fetchWithRetry net =
        (Inl (AIError (''Failed after 3 attempts: '' @ m) ''MAX_RETRIES_EXCEEDED''),
         [Fetch, Sleep 1000, Fetch, Sleep 2000, Fetch]))
   \<and> (timed_out (net 1) \<longrightarrow>
      fetchWithRetry net = (Inl (AIError ''Request timed out'' ''TIMEOUT''), [Fetch]))
   \<and> (failure_message (net 1) \<noteq> None \<and> timed_out (net 2) \<longrightarrow>
      fetchWithRetry net =
        (Inl (AIError ''Request timed out'' ''TIMEOUT''), [Fetch, Sleep 1000, Fetch]))
   \<and> (failure_message (net 1) \<noteq> None \<and> failure_message (net 2) \<noteq> None \<and> timed_out (net 3) \<longrightarrow>
      fetchWithRetry net =
        (Inl (AIError ''Request timed out'' ''TIMEOUT''),
         [Fetch, Sleep 1000, Fetch, Sleep 2000, Fetch]))"
  using persistent_failure[of net] timeout_first[of net] timeout_second[of net]
    timeout_third[of net]
  by blast

theorem fetchWithRetry_policy_witness:
  "fetchWithRetry (\<lambda>k. Responded 503 ''busy'' None) =
     (Inl (AIError ''Failed after 3 attempts: API returned 503: busy'' ''MAX_RETRIES_EXCEEDED''),
      [Fetch, Sleep 1000, Fetch, Sleep 2000, Fetch])
   \<and> fetchWithRetry (\<lambda>k. Rejected ''AbortError'' ''This operation was aborted'') =
     (Inl (AIError ''Request timed out'' ''TIMEOUT''), [Fetch])
   \<and> fetchWithRetry (\<lambda>k. if k = 1 then Rejected ''TypeError'' ''fetch failed''
                         else Rejected ''AbortError'' ''This operation was aborted'') =
     (Inl (AIError ''Request timed out'' ''TIMEOUT''), [Fetch, Sleep 1000, Fetch])
   \<and> fetchWithRetry (\<lambda>k. if k < 3 then Rejected ''TypeError'' ''fetch failed''
                         else Rejected ''AbortError'' ''This operation was aborted'') =
     (Inl (AIError ''Request timed out'' ''TIMEOUT''),
      [Fetch, Sleep 1000, Fetch, Sleep 2000, Fetch])"
proof -
  have d: "string_of_nat 503 = ''503''" by code_simp
  have a: "failure_message (Responded 503 ''busy'' None) = Some ''API returned 503: busy''"
    by (simp add: d)
  show ?thesis
    using fetchWithRetry_policy[of "\<lambda>k. Responded 503 ''busy'' None" "''API returned 503: busy''"]
      fetchWithRetry_policy[of "\<lambda>k. Rejected ''AbortError'' ''This operation was aborted''" "[]"]
      fetchWithRetry_policy[of "\<lambda>k. if k = 1 then Rejected ''TypeError'' ''fetch failed''
                         else Rejected ''AbortError'' ''This operation was aborted''" "[]"]
      fetchWithRetry_policy[of "\<lambda>k. if k < 3 then Rejected ''TypeError'' ''fetch failed''
                         else Rejected ''AbortError'' ''This operation was aborted''" "[]"]
    by (simp add: a d)
qed

lemma trim_Nil_iff: "trim u = [] \<longleftrightarrow> (\<forall>c\<in>set u. isWhiteSpace c)"
proof -
  have "trim u = [] \<longleftrightarrow> (\<forall>c\<in>set (dropWhile isWhiteSpace u). isWhiteSpace c)"
    by (simp add: trim_def dropWhile_eq_Nil_conv)
  also have "\<dots> \<longleftrightarrow> (\<forall>c\<in>set u. isWhiteSpace c)"
  proof
    assume a: "\<forall>c\<in>set (dropWhile isWhiteSpace u). isWhiteSpace c"
    have "set u = set (takeWhile isWhiteSpace u) \<union> set (dropWhile isWhiteSpace u)"
      by (metis set_append takeWhile_dropWhile_id)
    with a show "\<forall>c\<in>set u. isWhiteSpace c"
      by (auto dest: set_takeWhileD)
  next
    assume "\<forall>c\<in>set u. isWhiteSpace c"
    then show "\<forall>c\<in>set (dropWhile isWhiteSpace u). isWhiteSpace c"
      by (auto dest: set_dropWhileD)
  qed
  finally show ?thesis .
qed

text \<open>
  Claim C9. For a user input that is empty or consists of white space only,
  \<open>generateCommand\<close> throws \<open>INVALID_INPUT\<close> and has no effect at all: no network call and
  no delay, whatever the network would have answered.
\<close>

theorem generateCommand_blank_input:
  "(\<forall>c\<in>set userInput. isWhiteSpace c) \<Longrightarrow>
     generateCommand userInput net = (Inl (AIError ''User input is required'' ''INVALID_INPUT''), [])"
  by (simp add: generateCommand_def trim_Nil_iff)

theorem generateCommand_blank_input_witness:
  "generateCommand [] (\<lambda>k. Responded 200 [] None) =
     (Inl (AIError ''User input is required'' ''INVALID_INPUT''), [])
   \<and> generateCommand ''   '' (\<lambda>k. Responded 200 [] None) =
     (Inl (AIError ''User input is required'' ''INVALID_INPUT''), [])"
  using generateCommand_blank_input[of "[]" "\<lambda>k. Responded 200 [] None"]
    generateCommand_blank_input[of "''   ''" "\<lambda>k. Responded 200 [] None"]
  by (simp add: isWhiteSpace_def)

section \<open>Properties of the redirection check\<close>

lemma split_on_not_Nil: "split_on p s \<noteq> []"
  by (induction s) (auto simp: neq_Nil_conv elim: cons_first.elims)

lemma concat_cons_first: "concat (cons_first c L) = c # concat L"
  by (cases L) simp_all

lemma length_cons_first: "L \<noteq> [] \<Longrightarrow> length (cons_first c L) = length L"
  by (cases L) simp_all

lemma chars_cons_first: "(\<Union>w\<in>set (cons_first c L). set w) = insert c (\<Union>w\<in>set L. set w)"
  by (cases L) auto

lemma split_on_concat: "concat (split_on p s) = filter (\<lambda>c. \<not> p c) s"
  by (induction s) (simp_all add: concat_cons_first)

lemma split_on_length: "length (split_on p s) = Suc (length (filter p s))"
  by (induction s) (simp_all add: length_cons_first split_on_not_Nil)

lemma split_on_pieces: "c \<in> (\<Union>w\<in>set (split_on p s). set w) \<Longrightarrow> \<not> p c"
proof (induction s)
  case Nil
  then show ?case by simp
next
  case (Cons a s)
  show ?case
  proof (cases "p a")
    case True
    with Cons show ?thesis by simp
  next
    case False
    with Cons.prems have "c \<in> insert a (\<Union>w\<in>set (split_on p s). set w)"
      by (simp only: split_on.simps if_False chars_cons_first)
    with False Cons.IH show ?thesis by auto
  qed
qed

lemma redirection_indices:
  "{i. i < length (c # cs) \<and> (c # cs) ! i = CHR ''>'' \<and>
       (if i = 0 then prev \<noteq> Some (CHR ''>'') else (c # cs) ! (i - 1) \<noteq> CHR ''>'')}
   = (if c = CHR ''>'' \<and> prev \<noteq> Some (CHR ''>'') then {0} else {})
     \<union> Suc ` {j. j < length cs \<and> cs ! j = CHR ''>'' \<and>
                (if j = 0 then Some c \<noteq> Some (CHR ''>'') else cs ! (j - 1) \<noteq> CHR ''>'')}"
  (is "?A = ?Z \<union> Suc ` ?B")
proof (rule set_eqI)
  fix i
  show "i \<in> ?A \<longleftrightarrow> i \<in> ?Z \<union> Suc ` ?B"
  proof (cases i)
    case 0
    then show ?thesis by auto
  next
    case (Suc j)
    have "i \<in> ?A \<longleftrightarrow> j \<in> ?B"
      unfolding Suc by (cases j) simp_all
    moreover have "i \<in> ?Z \<union> Suc ` ?B \<longleftrightarrow> j \<in> ?B"
      unfolding Suc by (auto split: if_splits)
    ultimately show ?thesis by simp
  qed
qed

lemma count_redir_card:
  "count_redir prev s = card {i. i < length s \<and> s ! i = CHR ''>'' \<and>
       (if i = 0 then prev \<noteq> Some (CHR ''>'') else s ! (i - 1) \<noteq> CHR ''>'')}"
proof (induction s arbitrary: prev)
  case Nil
  show ?case by simp
next
  case (Cons c cs)
  let ?B = "{j. j < length cs \<and> cs ! j = CHR ''>'' \<and>
                (if j = 0 then Some c \<noteq> Some (CHR ''>'') else cs ! (j - 1) \<noteq> CHR ''>'')}"
  let ?Z = "(if c = CHR ''>'' \<and> prev \<noteq> Some (CHR ''>'') then {0} else {}) :: nat set"
  have fin: "finite ?B" by simp
  have "card (?Z \<union> Suc ` ?B) = card ?Z + card (Suc ` ?B)"
    by (rule card_Un_disjoint) (use fin in auto)
  also have "card (Suc ` ?B) = card ?B"
    by (rule card_image) simp
  also have "card ?Z = (if c = CHR ''>'' \<and> prev \<noteq> Some (CHR ''>'') then 1 else 0)"
    by simp
  finally have "card (?Z \<union> Suc ` ?B) = count_redir prev (c # cs)"
    by (simp add: Cons.IH[of "Some c"])
  then show ?case by (simp only: redirection_indices)
qed

lemma redirectionCount_card:
  "redirectionCount segment = card {i. i < length segment \<and> segment ! i = CHR ''>'' \<and>
       (i = 0 \<or> segment ! (i - 1) \<noteq> CHR ''>'')}"
proof -
  have "{i. i < length segment \<and> segment ! i = CHR ''>'' \<and>
       (if i = 0 then None \<noteq> Some (CHR ''>'') else segment ! (i - 1) \<noteq> CHR ''>'')}
     = {i. i < length segment \<and> segment ! i = CHR ''>'' \<and>
       (i = 0 \<or> segment ! (i - 1) \<noteq> CHR ''>'')}"
    by auto
  then show ?thesis by (simp add: redirectionCount_def count_redir_card)
qed

text \<open>
  Claim C7. For a non-empty command that passes the admin check, the validator fails with
  \<open>INVALID_REDIRECTION\<close> if and only if one of the pieces between the \<open>&\<close> and \<open>|\<close>
  characters holds more than one \<open>>\<close> that no other \<open>>\<close> immediately precedes; otherwise
  it returns normally. So \<open>dir > a.txt > b.txt\<close> is rejected and
  \<open>dir > a.txt && type a.txt\<close> is accepted.
\<close>

theorem validateCommand_redirection:
  assumes "command \<noteq> []" and "\<not> fails_with (validateCommand command) ''ADMIN_REQUIRED''"
  shows "(fails_with (validateCommand command) ''INVALID_REDIRECTION'' \<longleftrightarrow>
           (\<exists>segment\<in>set (split_on (\<lambda>c. c = CHR ''&'' \<or> c = CHR ''|'') command).
              1 < card {i. i < length segment \<and> segment ! i = CHR ''>'' \<and>
                           (i = 0 \<or> segment ! (i - 1) \<noteq> CHR ''>'')}))
       \<and> (validateCommand command = Inr () \<longleftrightarrow>
           \<not> fails_with (validateCommand command) ''INVALID_REDIRECTION'')
       \<and> fails_with (validateCommand ''dir > a.txt > b.txt'') ''INVALID_REDIRECTION''
       \<and> validateCommand ''dir > a.txt && type a.txt'' = Inr ()"
proof -
  have sep: "isSegmentSeparator = (\<lambda>c. c = CHR ''&'' \<or> c = CHR ''|'')"
    by (rule ext) (simp add: isSegmentSeparator_def)
  from assms have na: "\<not> requiresAdminPrivileges command"
    by (auto simp: validateCommand_def)
  with assms(1) have v: "validateCommand command = checkSegments (split_on isSegmentSeparator command)"
    by (simp add: validateCommand_def)
  have 1: "fails_with (validateCommand command) ''INVALID_REDIRECTION'' \<longleftrightarrow>
           (\<exists>segment\<in>set (split_on (\<lambda>c. c = CHR ''&'' \<or> c = CHR ''|'') command).
              1 < card {i. i < length segment \<and> segment ! i = CHR ''>'' \<and>
                           (i = 0 \<or> segment ! (i - 1) \<noteq> CHR ''>'')})"
    unfolding v checkSegments_cases sep redirectionCount_card by simp
  have 2: "validateCommand command = Inr () \<longleftrightarrow>
           \<not> fails_with (validateCommand command) ''INVALID_REDIRECTION''"
    unfolding v checkSegments_cases by simp
  have 3: "fails_with (validateCommand ''dir > a.txt > b.txt'') ''INVALID_REDIRECTION''"
    by code_simp
  have 4: "validateCommand ''dir > a.txt && type a.txt'' = Inr ()"
    by code_simp
  from 1 2 3 4 show ?thesis by blast
qed

theorem validateCommand_redirection_witness:
  "''a >> b > c'' \<noteq> [] \<and> \<not> fails_with (validateCommand ''a >> b > c'') ''ADMIN_REQUIRED''
   \<and> (\<exists>segment\<in>set (split_on (\<lambda>c. c = CHR ''&'' \<or> c = CHR ''|'') ''a >> b > c'').
              1 < card {i. i < length segment \<and> segment ! i = CHR ''>'' \<and>
                           (i = 0 \<or> segment ! (i - 1) \<noteq> CHR ''>'')})"
proof -
  have h1: "''a >> b > c'' \<noteq> []" by simp
  have h2: "\<not> fails_with (validateCommand ''a >> b > c'') ''ADMIN_REQUIRED''" by code_simp
  have h3: "fails_with (validateCommand ''a >> b > c'') ''INVALID_REDIRECTION''" by code_simp
  from validateCommand_redirection[OF h1 h2] h1 h2 h3 show ?thesis by blast
qed

section \<open>Properties of the response extractor\<close>

lemma set_trim: "set (trim s) \<subseteq> set s"
proof -
  have "set (trim s) = set (dropWhile isWhiteSpace (rev (dropWhile isWhiteSpace s)))"
    by (simp add: trim_def)
  also have "\<dots> \<subseteq> set (rev (dropWhile isWhiteSpace s))"
    by (auto dest: set_dropWhileD)
  also have "\<dots> \<subseteq> set s"
    by (auto dest: set_dropWhileD)
  finally show ?thesis .
qed

lemma set_removeCommandRepetitions: "set (removeCommandRepetitions s) \<subseteq> set s"
proof -
  have "set (removeCommandRepetitions s) \<subseteq> set (trim s)"
    using rcr_cases[of s] by auto
  with set_trim[of s] show ?thesis by blast
qed

lemma removeCommandRepetitions_not_Nil:
  assumes "trim s \<noteq> []" shows "removeCommandRepetitions s \<noteq> []"
  using rcr_cases[of s] assms by auto

lemma split_lines_no_LF: "l \<in> set (split_lines t) \<Longrightarrow> CHR 0x0A \<notin> set l"
proof (induction t arbitrary: l rule: split_lines.induct)
  case 1
  then show ?case by simp
next
  case (2 c)
  then show ?case by (auto split: if_splits)
next
  case (3 c d cs)
  show ?case
  proof (cases "c = CHR 0x0A")
    case True
    with 3 show ?thesis by auto
  next
    case nl: False
    show ?thesis
    proof (cases "c = CHR 0x0D \<and> d = CHR 0x0A")
      case True
      with nl 3 show ?thesis by auto
    next
      case False
      with nl 3(4) have "l \<in> set (cons_first c (split_lines (d # cs)))" by simp
      then have "set l \<subseteq> insert c (\<Union>w\<in>set (split_lines (d # cs)). set w)"
        using chars_cons_first[of c "split_lines (d # cs)"] by blast
      moreover have "CHR 0x0A \<notin> (\<Union>w\<in>set (split_lines (d # cs)). set w)"
        using 3(3)[OF nl False] by blast
      ultimately show ?thesis using nl by auto
    qed
  qed
qed

lemma split_lines_chars:
  "c \<in> set t \<Longrightarrow> c \<noteq> CHR 0x0A \<Longrightarrow> c \<noteq> CHR 0x0D \<Longrightarrow> c \<in> (\<Union>w\<in>set (split_lines t). set w)"
proof (induction t rule: split_lines.induct)
  case 1
  then show ?case by simp
next
  case (2 a)
  then show ?case by auto
next
  case (3 a d cs)
  show ?case
  proof (cases "a = CHR 0x0A")
    case True
    with 3 show ?thesis by auto
  next
    case nl: False
    show ?thesis
    proof (cases "a = CHR 0x0D \<and> d = CHR 0x0A")
      case True
      with nl 3 show ?thesis by auto
    next
      case False
      have e: "(\<Union>w\<in>set (split_lines (a # d # cs)). set w)
                 = insert a (\<Union>w\<in>set (split_lines (d # cs)). set w)"
        using nl False by (simp only: split_lines.simps if_False chars_cons_first)
      show ?thesis
      proof (cases "c = a")
        case True
        with e show ?thesis by blast
      next
        case ne: False
        with 3(4) have "c \<in> set (d # cs)" by simp
        from 3(3)[OF nl False this 3(5) 3(6)] e show ?thesis by blast
      qed
    qed
  qed
qed

lemma trimmed_has_visible:
  assumes "trim s \<noteq> []"
  shows "\<exists>c\<in>set (trim s). \<not> isWhiteSpace c"
proof -
  have "trim (trim s) \<noteq> []" using assms by (simp add: trim_trim)
  then show ?thesis by (simp add: trim_Nil_iff)
qed

lemma first_line_found:
  assumes "trim raw \<noteq> []"
  shows "\<exists>line. find (\<lambda>line. length line > 0) (map trim (split_lines (trim raw))) = Some line
           \<and> line \<noteq> [] \<and> trim line = line \<and> CHR 0x0A \<notin> set line"
proof -
  obtain c where c: "c \<in> set (trim raw)" "\<not> isWhiteSpace c"
    using trimmed_has_visible[OF assms] by blast
  then have "c \<noteq> CHR 0x0A" "c \<noteq> CHR 0x0D" by (auto simp: isWhiteSpace_def)
  with c obtain w where w: "w \<in> set (split_lines (trim raw))" "c \<in> set w"
    using split_lines_chars[of c "trim raw"] by blast
  with c have "trim w \<noteq> []" by (auto simp: trim_Nil_iff)
  with w have "\<exists>x\<in>set (map trim (split_lines (trim raw))). length x > 0" by auto
  then obtain line where f: "find (\<lambda>line. length line > 0) (map trim (split_lines (trim raw))) = Some line"
    by (cases "find (\<lambda>line. length line > 0) (map trim (split_lines (trim raw)))")
       (auto simp: find_None_iff)
  then have "line \<in> set (map trim (split_lines (trim raw)))" and ne: "line \<noteq> []"
    by (auto simp: find_Some_iff)
  then obtain x where x: "x \<in> set (split_lines (trim raw))" "line = trim x" by auto
  then have "CHR 0x0A \<notin> set line" using split_lines_no_LF[OF x(1)] set_trim[of x] by blast
  moreover have "trim line = line" using x by (simp add: trim_trim)
  ultimately show ?thesis using f ne by blast
qed

lemma validateResponse_string:
  assumes "contentOf data = Some (JStr raw)" "trim raw \<noteq> []"
  shows "\<exists>command. validateResponse data = Inr command \<and> command \<noteq> [] \<and> CHR 0x0A \<notin> set command"
proof -
  obtain line where l: "find (\<lambda>line. length line > 0) (map trim (split_lines (trim raw))) = Some line"
    "line \<noteq> []" "trim line = line" "CHR 0x0A \<notin> set line"
    using first_line_found[OF assms(2)] by blast
  from assms have "raw \<noteq> []" by (auto simp: trim_def)
  with assms l have "validateResponse data = Inr (removeCommandRepetitions line)"
    by (simp add: validateResponse_def Let_def)
  moreover have "removeCommandRepetitions line \<noteq> []"
    using l by (intro removeCommandRepetitions_not_Nil) simp
  moreover have "CHR 0x0A \<notin> set (removeCommandRepetitions line)"
    using l set_removeCommandRepetitions[of line] by blast
  ultimately show ?thesis by blast
qed

lemma validateResponse_no_second_branch:
  "validateResponse data \<noteq> Inl (AIError ''No valid command found in AI response'' ''INVALID_RESPONSE'')"
proof (cases "truthy (contentOf data)")
  case False
  then show ?thesis by (simp add: validateResponse_def)
next
  case True
  show ?thesis
  proof (cases "\<exists>raw. contentOf data = Some (JStr raw)")
    case False
    with True show ?thesis
      by (auto simp: validateResponse_def split: option.splits json.splits)
  next
    case s: True
    then obtain raw where raw: "contentOf data = Some (JStr raw)" by blast
    show ?thesis
    proof (cases "trim raw = []")
      case True
      with raw \<open>truthy (contentOf data)\<close> show ?thesis by (simp add: validateResponse_def)
    next
      case False
      from validateResponse_string[OF raw False] show ?thesis by auto
    qed
  qed
qed

lemma validateResponse_invalid_iff:
  "fails_with (validateResponse data) ''INVALID_RESPONSE'' \<longleftrightarrow> \<not> truthy (contentOf data)"
proof (cases "truthy (contentOf data)")
  case False
  then show ?thesis by (simp add: validateResponse_def)
next
  case True
  show ?thesis
  proof (cases "\<exists>raw. contentOf data = Some (JStr raw)")
    case False
    with True show ?thesis
      by (auto simp: validateResponse_def split: option.splits json.splits)
  next
    case s: True
    then obtain raw where raw: "contentOf data = Some (JStr raw)" by blast
    show ?thesis
    proof (cases "trim raw = []")
      case True
      with raw \<open>truthy (contentOf data)\<close> show ?thesis by (simp add: validateResponse_def)
    next
      case False
      from validateResponse_string[OF raw False] \<open>truthy (contentOf data)\<close> show ?thesis by auto
    qed
  qed
qed

lemma not_truthy_iff:
  "\<not> truthy v \<longleftrightarrow> v \<in> {None, Some JNull, Some (JBool False), Some (JNum 0), Some (JStr [])}"
  by (cases v rule: truthy.cases) auto

text \<open>
  Claim C10, as amended. The branch \<open>No valid command found\<close> of the extractor is never
  taken. The extractor throws \<open>INVALID_RESPONSE\<close> exactly when the content is absent or
  falsy: \<open>undefined\<close>, \<open>null\<close>, \<open>false\<close>, \<open>0\<close> or the empty string. When the content is a
  string that is not empty after trimming, the extractor returns a non-empty command that
  holds no line feed.
\<close>

theorem validateResponse_first_line:
  "validateResponse data \<noteq> Inl (AIError ''No valid command found in AI response'' ''INVALID_RESPONSE'')
   \<and> (fails_with (validateResponse data) ''INVALID_RESPONSE'' \<longleftrightarrow>
        contentOf data \<in> {None, Some JNull, Some (JBool False), Some (JNum 0), Some (JStr [])})
   \<and> (contentOf data = Some (JStr raw) \<and> trim raw \<noteq> [] \<longrightarrow>
        (\<exists>command. validateResponse data = Inr command \<and> command \<noteq> []
           \<and> CHR 0x0A \<notin> set command))"
  using validateResponse_no_second_branch[of data] validateResponse_invalid_iff[of data]
    not_truthy_iff[of "contentOf data"] validateResponse_string[of data raw]
  by blast

theorem validateResponse_first_line_witness:
  "contentOf (JObj [(''choices'', JArr [JObj [(''message'', JObj [(''content'', JStr '' dir /b '')])]])])
     = Some (JStr '' dir /b '')
   \<and> trim '' dir /b '' \<noteq> []
   \<and> (\<exists>command. validateResponse
          (JObj [(''choices'', JArr [JObj [(''message'', JObj [(''content'', JStr '' dir /b '')])]])])
            = Inr command \<and> command \<noteq> [] \<and> CHR 0x0A \<notin> set command)"
proof -
  have h1: "contentOf (JObj [(''choices'', JArr [JObj [(''message'', JObj [(''content'', JStr '' dir /b '')])]])])
     = Some (JStr '' dir /b '')"
    by (simp add: contentOf_def)
  have h2: "trim '' dir /b '' \<noteq> []"
    by (simp add: trim_def isWhiteSpace_def)
  from validateResponse_first_line[of
      "JObj [(''choices'', JArr [JObj [(''message'', JObj [(''content'', JStr '' dir /b '')])]])]"
      "'' dir /b ''"] h1 h2
  show ?thesis by blast
qed

text \<open>
  Claim C10 as stated fails: with the empty string as content the content path is present,
  and the extractor throws \<open>INVALID_RESPONSE\<close> all the same.
\<close>

theorem validateResponse_empty_content:
  "contentOf (JObj [(''choices'', JArr [JObj [(''message'', JObj [(''content'', JStr [])])]])])
     = Some (JStr [])
   \<and> fails_with (validateResponse
         (JObj [(''choices'', JArr [JObj [(''message'', JObj [(''content'', JStr [])])]])]))
       ''INVALID_RESPONSE''"
  by (simp add: contentOf_def validateResponse_def)

text \<open>A carriage return that no line feed follows ends no line for the extractor: it
  stays inside the command.\<close>

lemma validateResponse_keeps_lone_CR:
  "validateResponse
     (JObj [(''choices'', JArr [JObj [(''message'', JObj [(''content'', JStr (''a'' @ [CHR 0x0D] @ ''b''))])]])])
     = Inr (''a'' @ [CHR 0x0D] @ ''b'')"
  by code_simp

section \<open>The entry point and the normalizer\<close>

lemma retryLoop_error_codes:
  "fst (retryLoop net attempt lastError trace) = Inl e \<Longrightarrow>
     (\<exists>m. e = AIError m ''TIMEOUT'') \<or> (\<exists>m. e = AIError m ''MAX_RETRIES_EXCEEDED'')"
proof (induction net attempt lastError trace rule: retryLoop.induct)
  case (1 net attempt lastError trace)
  show ?case
  proof (cases "attempt \<le> MAX_RETRIES")
    case False
    with "1.prems" show ?thesis by (subst (asm) retryLoop.simps) auto
  next
    case le: True
    show ?thesis
    proof (cases "attemptOnce (net attempt)")
      case (Inr response)
      with le "1.prems" show ?thesis by (subst (asm) retryLoop.simps) auto
    next
      case (Inl error)
      show ?thesis
      proof (cases "isAbort error \<or> attempt = MAX_RETRIES")
        case True
        with le Inl "1.prems" show ?thesis
          by (subst (asm) retryLoop.simps) (auto split: if_splits)
      next
        case False
        with le Inl "1.prems"
        have "fst (retryLoop net (attempt + 1) (Some (asError error))
                 (trace @ [Fetch, Sleep (RETRY_DELAY * attempt)])) = Inl e"
          by (subst (asm) retryLoop.simps) simp
        with "1.IH"[OF le Inl] False show ?thesis by blast
      qed
    qed
  qed
qed

lemma fetchWithRetry_not_invalid_command:
  "fetchWithRetry net = (Inl e, trace) \<Longrightarrow> \<not> fails_with (Inl (rethrow e)) ''INVALID_COMMAND''"
  using retryLoop_error_codes[of net 1 None "[]" e] by (auto simp: fetchWithRetry_def)

lemma validateResponse_not_invalid_command:
  "validateResponse data = Inl e \<Longrightarrow> \<not> fails_with (Inl (rethrow e)) ''INVALID_COMMAND''"
  by (auto simp: validateResponse_def Let_def split: if_splits option.splits json.splits)

lemma validateCommand_not_invalid_command:
  "validateCommand command = Inl e \<Longrightarrow> \<not> fails_with (Inl (rethrow e)) ''INVALID_COMMAND''"
  by (auto simp: validateCommand_def checkSegments_cases split: if_splits)

lemma generateCommand_never_invalid_command:
  "\<not> fails_with (fst (generateCommand userInput net)) ''INVALID_COMMAND''"
proof (cases "trim userInput = []")
  case True
  then show ?thesis by (simp add: generateCommand_def)
next
  case False
  obtain r trace where f: "fetchWithRetry net = (r, trace)" by (cases "fetchWithRetry net")
  show ?thesis
  proof (cases r)
    case (Inl e)
    with f False fetchWithRetry_not_invalid_command[of net e trace] show ?thesis
      by (simp add: generateCommand_def)
  next
    case (Inr resp)
    obtain status body js where resp: "resp = (status, body, js)" by (cases resp)
    show ?thesis
    proof (cases js)
      case None
      with f False Inr resp show ?thesis by (simp add: generateCommand_def)
    next
      case (Some data)
      show ?thesis
      proof (cases "validateResponse data")
        case e: (Inl e)
        with f False Inr resp Some validateResponse_not_invalid_command[of data e] show ?thesis
          by (simp add: generateCommand_def)
      next
        case c: (Inr command)
        show ?thesis
        proof (cases "validateCommand command")
          case (Inl e)
          with f False Inr resp Some c validateCommand_not_invalid_command[of command e]
          show ?thesis by (simp add: generateCommand_def)
        next
          case ok: (Inr u)
          with f False Inr resp Some c show ?thesis by (simp add: generateCommand_def)
        qed
      qed
    qed
  qed
qed

text \<open>
  Claim C1 fails on the code. For the completion whose content is
  \<open>dir /a /a\<close>, a line feed and \<open>dir /a /a\<close> again, \<open>generateCommand\<close> returns
  \<open>dir /a /a\<close>: it extracts, collapses and validates, and never calls \<open>cleanCommand\<close>,
  which would have turned that line into \<open>dir /a\<close>.
\<close>

theorem generateCommand_skips_normalization:
  "generateCommand ''list files''
     (\<lambda>k. Responded 200 []
        (Some (JObj [(''choices'', JArr [JObj [(''message'',
           JObj [(''content'', JStr (''dir /a /a'' @ [CHR 0x0A] @ ''dir /a /a''))])]])])))
     = (Inr [''dir /a /a''], [Fetch])
   \<and> cleanCommand ''dir /a /a'' = Inr ''dir /a''"
  by code_simp

text \<open>
  Claim C3 fails on the code. \<open>generateCommand\<close> returns the command \<open>@echo hi\<close>, which
  starts with a character that is neither a letter nor a digit; \<open>cleanCommand\<close> would have
  rejected it with \<open>INVALID_COMMAND\<close>, and no run of \<open>generateCommand\<close> ever fails with
  that code.
\<close>

theorem generateCommand_returns_leading_symbol:
  "generateCommand ''greet''
     (\<lambda>k. Responded 200 []
        (Some (JObj [(''choices'', JArr [JObj [(''message'',
           JObj [(''content'', JStr ''@echo hi'')])]])])))
     = (Inr [''@echo hi''], [Fetch])
   \<and> cleanCommand ''@echo hi'' = Inl (AIError ''Invalid command structure'' ''INVALID_COMMAND'')
   \<and> \<not> fails_with (fst (generateCommand userInput net)) ''INVALID_COMMAND''"
proof -
  have 1: "generateCommand ''greet''
     (\<lambda>k. Responded 200 []
        (Some (JObj [(''choices'', JArr [JObj [(''message'',
           JObj [(''content'', JStr ''@echo hi'')])]])])))
     = (Inr [''@echo hi''], [Fetch])"
    by code_simp
  have 2: "cleanCommand ''@echo hi'' = Inl (AIError ''Invalid command structure'' ''INVALID_COMMAND'')"
    by code_simp
  from 1 2 generateCommand_never_invalid_command[of userInput net] show ?thesis by blast
qed

section \<open>Properties of the normalizer for known commands\<close>

subsection \<open>The set of parameters keeps the first occurrence of each\<close>

lemma remdups_skip: "x \<in> set zs \<Longrightarrow> remdups (ys @ x # zs) = remdups (ys @ zs)"
  by (induction ys) auto

lemma collectParams_remdups:
  "distinct params \<Longrightarrow> collectParams validParams params ms =
     rev (remdups (rev (params @ filter (\<lambda>f. f \<in> set validParams) (map toLowerCase ms))))"
proof (induction ms arbitrary: params)
  case Nil
  then show ?case by (simp add: distinct_remdups_id)
next
  case (Cons m ms)
  let ?f = "toLowerCase m"
  let ?rest = "filter (\<lambda>f. f \<in> set validParams) (map toLowerCase ms)"
  show ?case
  proof (cases "?f \<in> set validParams")
    case False
    then show ?thesis using Cons.IH[of params] Cons.prems by simp
  next
    case v: True
    show ?thesis
    proof (cases "?f \<in> set params")
      case True
      then have "remdups (rev ?rest @ ?f # rev params) = remdups (rev ?rest @ rev params)"
        by (intro remdups_skip) simp
      with v True show ?thesis using Cons.IH[of params] Cons.prems by simp
    next
      case False
      with v show ?thesis using Cons.IH[of "params @ [?f]"] Cons.prems by simp
    qed
  qed
qed

subsection \<open>Text without a placeholder, text without two slashes\<close>

lemma findFirst_None: "needle \<noteq> [] \<Longrightarrow> hd needle \<notin> set hay \<Longrightarrow> findFirst hay needle = None"
proof (induction hay)
  case Nil
  then show ?case by simp
next
  case (Cons c cs)
  then have "\<not> prefix needle (c # cs)"
    by (cases needle) (auto simp: prefix_def)
  with Cons show ?case by simp
qed

lemma hd_placeholder: "placeholder i \<noteq> [] \<and> hd (placeholder i) = CHR ''_''"
  by (simp add: placeholder_def)

lemma restoreUrls_no_underscore:
  "CHR ''_'' \<notin> set s \<Longrightarrow> restoreUrls i urls s = s"
proof (induction urls arbitrary: i)
  case Nil
  show ?case by simp
next
  case (Cons u urls)
  have "findFirst s (placeholder i) = None"
    using hd_placeholder[of i] Cons.prems by (intro findFirst_None) simp_all
  then have "replaceFirst s (placeholder i) u = s" by (simp add: replaceFirst_def)
  with Cons show ?case by simp
qed

lemma lowerChar_idem: "lowerChar (lowerChar c) = lowerChar c"
proof (cases c)
  case (Char b0 b1 b2 b3 b4 b5 b6 b7)
  show ?thesis unfolding Char
    by (cases b0; cases b1; cases b2; cases b3; cases b4; cases b5; cases b6; cases b7;
        simp add: lowerChar_def isUpper_def)
qed

lemma lowerChar_code_unit:
  "isUpper c \<Longrightarrow> (of_char (lowerChar c) :: nat) = of_char c + 32"
proof (cases c)
  case (Char b0 b1 b2 b3 b4 b5 b6 b7)
  assume "isUpper c"
  then show ?thesis unfolding Char
    by (cases b0; cases b1; cases b2; cases b3; cases b4; cases b5; cases b6; cases b7;
        simp add: lowerChar_def isUpper_def)
qed

lemma toLowerCase_idem: "toLowerCase (toLowerCase s) = toLowerCase s"
  by (simp add: toLowerCase_def lowerChar_idem)

lemma fixSeparators_append:
  "noDoubleSlash x \<Longrightarrow> (x \<noteq> [] \<and> last x = CHR ''/'' \<longrightarrow> q = [] \<or> hd q \<noteq> CHR ''/'')
     \<Longrightarrow> fixSeparators pre (x @ q) = x @ fixSeparators (pre @ x) q"
proof (induction x arbitrary: pre rule: noDoubleSlash.induct)
  case 1
  show ?case by simp
next
  case (2 c)
  show ?case
  proof (cases q)
    case Nil
    then show ?thesis by simp
  next
    case (Cons d r)
    with 2 show ?thesis by auto
  qed
next
  case (3 c d r)
  then have n: "\<not> (c = CHR ''/'' \<and> d = CHR ''/'')" and nd: "noDoubleSlash (d # r)" by simp_all
  have "fixSeparators pre ((c # d # r) @ q) = c # fixSeparators (pre @ [c]) ((d # r) @ q)"
    using n by auto
  also have "fixSeparators (pre @ [c]) ((d # r) @ q) = (d # r) @ fixSeparators ((pre @ [c]) @ (d # r)) q"
    using 3 n nd by (intro "3.IH") auto
  finally show ?case by simp
qed

lemma fixSeparators_id: "noDoubleSlash s \<Longrightarrow> fixSeparators pre s = s"
  using fixSeparators_append[of s "[]" pre] by simp

lemma noDoubleSlash_append:
  "noDoubleSlash a \<Longrightarrow> noDoubleSlash b \<Longrightarrow> (a \<noteq> [] \<longrightarrow> last a \<noteq> CHR ''/'')
     \<Longrightarrow> noDoubleSlash (a @ b)"
proof (induction a rule: noDoubleSlash.induct)
  case 1
  then show ?case by simp
next
  case (2 c)
  then show ?case by (cases b) auto
next
  case (3 c d r)
  then show ?case by auto
qed

text \<open>A piece of text that can be put before any other without making two slashes.\<close>

lemma join_pieces:
  assumes "\<forall>f\<in>set fs. noDoubleSlash f \<and> f \<noteq> [] \<and> last f \<noteq> CHR ''/'' \<and> CHR ''_'' \<notin> set f"
  shows "noDoubleSlash (join '' '' fs) \<and> CHR ''_'' \<notin> set (join '' '' fs)
         \<and> (join '' '' fs \<noteq> [] \<longrightarrow> last (join '' '' fs) \<noteq> CHR ''/'')"
  using assms
proof (induction fs)
  case Nil
  show ?case by simp
next
  case (Cons w rest)
  show ?case
  proof (cases rest)
    case Nil
    with Cons.prems show ?thesis by simp
  next
    case (Cons v ws)
    let ?j = "join '' '' (v # ws)"
    from Cons.prems have w: "noDoubleSlash w" "w \<noteq> []" "last w \<noteq> CHR ''/''" "CHR ''_'' \<notin> set w"
      by simp_all
    from Cons.IH Cons.prems Cons have r: "noDoubleSlash ?j" "CHR ''_'' \<notin> set ?j"
      "?j \<noteq> [] \<longrightarrow> last ?j \<noteq> CHR ''/''"
      by simp_all
    have sp: "noDoubleSlash ('' '' @ ?j)"
      using r(1) by (cases ?j) simp_all
    have "noDoubleSlash (w @ ('' '' @ ?j))"
      by (rule noDoubleSlash_append[OF w(1) sp]) (simp add: w)
    moreover have "last (w @ '' '' @ ?j) \<noteq> CHR ''/''"
      using r(3) by (cases "?j = []") simp_all
    moreover have "CHR ''_'' \<notin> set (w @ '' '' @ ?j)"
      using w(4) r(2) by simp
    ultimately show ?thesis using Cons by simp
  qed
qed

lemma commonCommands_Params:
  "commonCommands w = Params v \<Longrightarrow>
     (w = ''ipconfig'' \<and> v = [''/all'', ''/release'', ''/renew'', ''/flushdns''])
   \<or> (w = ''dir'' \<and> v = [''/a'', ''/b'', ''/s'', ''/w'', ''/p'', ''/o'', ''/ad''])
   \<or> (w = ''netstat'' \<and> v = [''-a'', ''-n'', ''-b'', ''-o''])
   \<or> (w = ''ping'' \<and> v = [''-t'', ''-a'', ''-n'', ''-l''])
   \<or> (w = ''curl'' \<and> v = [''-s'', ''-o'', ''-L'', ''-I'', ''-H''])"
  unfolding commonCommands_def by (simp split: if_splits)

lemma validParams_pieces:
  assumes "commonCommands w = Params v"
  shows "\<forall>f\<in>set v. noDoubleSlash f \<and> f \<noteq> [] \<and> last f \<noteq> CHR ''/'' \<and> CHR ''_'' \<notin> set f"
  using commonCommands_Params[OF assms] by (elim disjE conjE) simp_all

lemma firstWord_piece:
  assumes "commonCommands w = Params v"
  shows "noDoubleSlash (w @ '' '') \<and> CHR ''_'' \<notin> set (w @ '' '') \<and> w \<noteq> []
         \<and> isAsciiAlnum (hd w) \<and> CHR '':'' \<notin> set w \<and> CHR '' '' \<notin> set w"
  using commonCommands_Params[OF assms] by (elim disjE conjE) (simp_all add: isAsciiAlnum_def)

lemma knownCommand_finish:
  assumes k: "commonCommands w = Params v" and fs: "set fs \<subseteq> set v"
  shows "finishCommand (restoreUrls 0 urls (w @ '' '' @ join '' '' fs)) = Inr (w @ '' '' @ join '' '' fs)"
proof -
  let ?out = "w @ '' '' @ join '' '' fs"
  from validParams_pieces[OF k] fs
  have "\<forall>f\<in>set fs. noDoubleSlash f \<and> f \<noteq> [] \<and> last f \<noteq> CHR ''/'' \<and> CHR ''_'' \<notin> set f"
    by blast
  from join_pieces[OF this] have j: "noDoubleSlash (join '' '' fs)" "CHR ''_'' \<notin> set (join '' '' fs)"
    by simp_all
  from firstWord_piece[OF k] have w: "noDoubleSlash (w @ '' '')" "CHR ''_'' \<notin> set (w @ '' '')"
    "w \<noteq> []" "isAsciiAlnum (hd w)" by simp_all
  have "noDoubleSlash ((w @ '' '') @ join '' '' fs)"
    by (rule noDoubleSlash_append[OF w(1) j(1)]) simp
  then have nds: "noDoubleSlash ?out" by simp
  have nu: "CHR ''_'' \<notin> set ?out" using w(2) j(2) by auto
  have "restoreUrls 0 urls ?out = ?out" by (rule restoreUrls_no_underscore[OF nu])
  moreover have "fixSeparators [] ?out = ?out" by (rule fixSeparators_id[OF nds])
  moreover have "hd ?out = hd w" using w(3) by simp
  ultimately show ?thesis using w by (simp add: finishCommand_def)
qed

section \<open>The first word and the allow-list\<close>

subsection \<open>The first word\<close>

lemma hd_cons_first: "L \<noteq> [] \<Longrightarrow> hd (cons_first c L) = c # hd L"
  by (cases L) simp_all

lemma split_on_first:
  "\<exists>r. s = hd (split_on p s) @ r \<and> (r = [] \<or> p (hd r)) \<and> (\<forall>c\<in>set (hd (split_on p s)). \<not> p c)"
proof (induction s)
  case Nil
  show ?case by simp
next
  case (Cons c cs)
  show ?case
  proof (cases "p c")
    case True
    then show ?thesis by simp
  next
    case False
    from Cons obtain r where r: "cs = hd (split_on p cs) @ r" "r = [] \<or> p (hd r)"
      "\<forall>c\<in>set (hd (split_on p cs)). \<not> p c" by blast
    have h: "hd (split_on p (c # cs)) = c # hd (split_on p cs)"
      using False by (simp add: hd_cons_first split_on_not_Nil)
    have "c # cs = hd (split_on p (c # cs)) @ r" using r(1) h by simp
    moreover have "\<forall>x\<in>set (hd (split_on p (c # cs))). \<not> p x" using r(3) h False by simp
    ultimately show ?thesis using r(2) by blast
  qed
qed

lemma hd_split_on_append:
  "\<forall>c\<in>set w. \<not> p c \<Longrightarrow> r = [] \<or> p (hd r) \<Longrightarrow> hd (split_on p (w @ r)) = w"
proof (induction w)
  case Nil
  then show ?case by (cases r) auto
next
  case (Cons c w)
  then show ?case by (simp add: hd_cons_first split_on_not_Nil)
qed

lemma prefix_before_space:
  assumes "prefix sch (w @ r)" "r = [] \<or> hd r = CHR '' ''" "CHR '' '' \<notin> set sch"
  shows "prefix sch w"
proof -
  from assms(1) consider "prefix sch w" | us where "sch = w @ us" "prefix us r"
    unfolding prefix_append by blast
  then show ?thesis
  proof cases
    case 1
    then show ?thesis .
  next
    case 2
    show ?thesis
    proof (cases us)
      case Nil
      with 2 show ?thesis by simp
    next
      case (Cons a us')
      with 2(2) obtain r' where "r = a # r'" by (auto simp: prefix_def)
      with assms(2) have "a = CHR '' ''" by simp
      with 2(1) Cons assms(3) show ?thesis by simp
    qed
  qed
qed

lemma matchUrl_no_colon:
  assumes "CHR '':'' \<notin> set w" "r = [] \<or> hd r = CHR '' ''"
  shows "matchUrl (w @ r) = None"
proof -
  have "\<not> prefix ''https://'' (w @ r)"
  proof
    assume "prefix ''https://'' (w @ r)"
    then have "prefix ''https://'' w" using assms(2) by (rule prefix_before_space) simp
    then have "set ''https://'' \<subseteq> set w" by (rule set_mono_prefix)
    with assms(1) show False by simp
  qed
  moreover have "\<not> prefix ''http://'' (w @ r)"
  proof
    assume "prefix ''http://'' (w @ r)"
    then have "prefix ''http://'' w" using assms(2) by (rule prefix_before_space) simp
    then have "set ''http://'' \<subseteq> set w" by (rule set_mono_prefix)
    with assms(1) show False by simp
  qed
  ultimately show ?thesis by (simp add: matchUrl_def urlPrefixLength_def)
qed

lemma replaceUrls_word:
  "CHR '':'' \<notin> set w \<Longrightarrow> r = [] \<or> hd r = CHR '' '' \<Longrightarrow>
     replaceUrls acc (w @ r) = (w @ fst (replaceUrls acc r), snd (replaceUrls acc r))"
proof (induction w)
  case Nil
  show ?case by simp
next
  case (Cons c w)
  then have "matchUrl ((c # w) @ r) = None" by (intro matchUrl_no_colon) simp_all
  then have "matchUrl (c # w @ r) = None" by simp
  moreover have "replaceUrls acc (w @ r) = (w @ fst (replaceUrls acc r), snd (replaceUrls acc r))"
    using Cons by simp
  ultimately show ?case by (simp add: replaceUrls.simps)
qed

lemma replaceUrls_after_space:
  assumes "r = [] \<or> hd r = CHR '' ''"
  shows "fst (replaceUrls acc r) = [] \<or> hd (fst (replaceUrls acc r)) = CHR '' ''"
proof (cases r)
  case Nil
  then show ?thesis by (simp add: replaceUrls.simps)
next
  case (Cons a r')
  with assms have a: "a = CHR '' ''" by simp
  have "matchUrl (CHR '' '' # r') = None"
    by (simp add: matchUrl_def urlPrefixLength_def)
  with Cons a show ?thesis by (simp add: replaceUrls.simps split: prod.splits)
qed

lemma known_first_word:
  assumes fw: "toLowerCase (hd (split_on (\<lambda>c. c = CHR '' '') (trim command))) = firstWord"
    and k: "commonCommands firstWord = Params validParams"
  shows "toLowerCase (hd (split_on (\<lambda>c. c = CHR '' '') (fst (replaceUrls [] (trim command)))))
           = firstWord"
proof -
  let ?sp = "\<lambda>c. c = CHR '' ''"
  let ?t = "trim command"
  let ?w = "hd (split_on ?sp ?t)"
  obtain r where r: "?t = ?w @ r" "r = [] \<or> hd r = CHR '' ''" "\<forall>c\<in>set ?w. c \<noteq> CHR '' ''"
    using split_on_first[of ?t ?sp] by auto
  have nc: "CHR '':'' \<notin> set ?w"
  proof
    assume "CHR '':'' \<in> set ?w"
    then have "lowerChar (CHR '':'') \<in> set (toLowerCase ?w)" by (simp add: toLowerCase_def)
    then have "CHR '':'' \<in> set firstWord" using fw by (simp add: lowerChar_def isUpper_def)
    with firstWord_piece[OF k] show False by simp
  qed
  have "replaceUrls [] (?w @ r) = (?w @ fst (replaceUrls [] r), snd (replaceUrls [] r))"
    by (rule replaceUrls_word[OF nc r(2)])
  then have "fst (replaceUrls [] ?t) = ?w @ fst (replaceUrls [] r)" using r(1) by simp
  moreover have "hd (split_on ?sp (?w @ fst (replaceUrls [] r))) = ?w"
    using r(3) replaceUrls_after_space[OF r(2), of "[]"] by (intro hd_split_on_append) auto
  ultimately show ?thesis using fw by simp
qed

subsection \<open>The allow-list, with and without regard to case\<close>

lemma allowed_ignoring_case:
  assumes k: "commonCommands firstWord = Params validParams"
    and curl: "firstWord = ''curl'' \<longrightarrow> toLowerCase m \<notin> {''-l'', ''-i'', ''-h''}"
  shows "toLowerCase m \<in> set validParams \<longleftrightarrow> toLowerCase m \<in> toLowerCase ` set validParams"
proof -
  have low: "firstWord \<noteq> ''curl'' \<Longrightarrow> toLowerCase ` set validParams = set validParams"
    using commonCommands_Params[OF k]
    by (elim disjE conjE) (simp_all add: toLowerCase_def lowerChar_def isUpper_def)
  show ?thesis
  proof (cases "firstWord = ''curl''")
    case False
    with low show ?thesis by simp
  next
    case True
    with commonCommands_Params[OF k] have v: "validParams = [''-s'', ''-o'', ''-L'', ''-I'', ''-H'']"
      by simp
    have img: "toLowerCase ` set validParams = {''-s'', ''-o'', ''-l'', ''-i'', ''-h''}"
      unfolding v by (simp add: toLowerCase_def lowerChar_def isUpper_def)
    have up: "toLowerCase m \<notin> {''-L'', ''-I'', ''-H''}"
    proof
      assume a: "toLowerCase m \<in> {''-L'', ''-I'', ''-H''}"
      have "toLowerCase (toLowerCase m) = toLowerCase m" by (rule toLowerCase_idem)
      with a show False by (auto simp: toLowerCase_def lowerChar_def isUpper_def)
    qed
    from curl True have "toLowerCase m \<notin> {''-l'', ''-i'', ''-h''}" by simp
    with up show ?thesis unfolding img unfolding v by auto
  qed
qed

lemma cleanCommand_known:
  assumes fw: "toLowerCase (hd (split_on (\<lambda>c. c = CHR '' '') (trim command))) = firstWord"
    and k: "commonCommands firstWord = Params validParams"
    and ms: "matches = paramMatches (fst (replaceUrls [] (trim command)))"
    and curl: "firstWord = ''curl'' \<longrightarrow> (\<forall>m\<in>set matches. toLowerCase m \<notin> {''-l'', ''-i'', ''-h''})"
    and fl: "flags = rev (remdups (rev (filter (\<lambda>f. f \<in> toLowerCase ` set validParams)
                       (map toLowerCase matches))))"
  shows "cleanCommand command = Inr (firstWord @ '' '' @ join '' '' flags)"
    and "distinct flags"
    and "set flags = toLowerCase ` set matches \<inter> toLowerCase ` set validParams"
proof -
  obtain t' urls where ru: "replaceUrls [] (trim command) = (t', urls)"
    by (cases "replaceUrls [] (trim command)")
  from known_first_word[OF fw k] ru
  have f': "toLowerCase (hd (split_on (\<lambda>c. c = CHR '' '') t')) = firstWord" by simp
  from ms ru have ms': "matches = paramMatches t'" by simp
  have "filter (\<lambda>f. f \<in> set validParams) (map toLowerCase matches)
        = filter (\<lambda>f. f \<in> toLowerCase ` set validParams) (map toLowerCase matches)"
    using curl by (intro filter_cong refl) (auto simp: allowed_ignoring_case[OF k])
  then have cp: "collectParams validParams [] matches = flags"
    using fl by (simp add: collectParams_remdups)
  show d: "distinct flags" using fl by simp
  show s: "set flags = toLowerCase ` set matches \<inter> toLowerCase ` set validParams"
    using fl by auto
  have sub: "set flags \<subseteq> set validParams"
  proof
    fix f assume "f \<in> set flags"
    with s obtain m where m: "m \<in> set matches" "f = toLowerCase m"
      "toLowerCase m \<in> toLowerCase ` set validParams" by auto
    with curl allowed_ignoring_case[OF k, of m] show "f \<in> set validParams" by blast
  qed
  have "cleanCommand command =
          finishCommand (restoreUrls 0 urls (firstWord @ '' '' @ join '' '' flags))"
    using ru f' k cp ms' by (simp add: cleanCommand_def Let_def)
  also have "\<dots> = Inr (firstWord @ '' '' @ join '' '' flags)"
    by (rule knownCommand_finish[OF k sub])
  finally show "cleanCommand command = Inr (firstWord @ '' '' @ join '' '' flags)" .
qed

section \<open>The normalizer on known commands\<close>

text \<open>
  Claim C8, as amended. Take an input whose first word, as the space character delimits it
  after trimming, is in lower case one of the five known commands; \<open>validParams\<close> is the
  allow-list of that command and \<open>matches\<close> are the flag-shaped pieces (a slash or a dash
  and the letters after it) of the input outside its URLs. For \<open>curl\<close> the input is to hold
  no flag that is \<open>-l\<close>, \<open>-i\<close> or \<open>-h\<close> in lower case. Then the normalizer returns the base
  command, a space, and the allow-listed flags in lower case, joined by spaces: each one
  once, in the order of their first occurrence, everything else dropped. In particular
  \<open>dir /a /a /s /unknownflag\<close> becomes \<open>dir /a /s\<close>.
\<close>

theorem cleanCommand_known_command:
  assumes "toLowerCase (hd (split_on (\<lambda>c. c = CHR '' '') (trim command))) = firstWord"
    and "commonCommands firstWord = Params validParams"
    and "matches = paramMatches (fst (replaceUrls [] (trim command)))"
    and "firstWord = ''curl'' \<longrightarrow> (\<forall>m\<in>set matches. toLowerCase m \<notin> {''-l'', ''-i'', ''-h''})"
  shows "(\<exists>flags. cleanCommand command = Inr (firstWord @ '' '' @ join '' '' flags)
           \<and> distinct flags
           \<and> set flags = toLowerCase ` set matches \<inter> toLowerCase ` set validParams
           \<and> flags = rev (remdups (rev (filter (\<lambda>f. f \<in> toLowerCase ` set validParams)
                                          (map toLowerCase matches)))))
       \<and> cleanCommand ''dir /a /a /s /unknownflag'' = Inr ''dir /a /s''"
proof
  let ?flags = "rev (remdups (rev (filter (\<lambda>f. f \<in> toLowerCase ` set validParams)
                                          (map toLowerCase matches))))"
  from cleanCommand_known[OF assms, of ?flags]
  show "\<exists>flags. cleanCommand command = Inr (firstWord @ '' '' @ join '' '' flags)
           \<and> distinct flags
           \<and> set flags = toLowerCase ` set matches \<inter> toLowerCase ` set validParams
           \<and> flags = rev (remdups (rev (filter (\<lambda>f. f \<in> toLowerCase ` set validParams)
                                          (map toLowerCase matches))))"
    by blast
  show "cleanCommand ''dir /a /a /s /unknownflag'' = Inr ''dir /a /s''"
    by code_simp
qed

theorem cleanCommand_known_command_witness:
  "toLowerCase (hd (split_on (\<lambda>c. c = CHR '' '') (trim ''PING -T host -n -t''))) = ''ping''
   \<and> commonCommands ''ping'' = Params [''-t'', ''-a'', ''-n'', ''-l'']
   \<and> paramMatches (fst (replaceUrls [] (trim ''PING -T host -n -t''))) = [''-T'', ''-n'', ''-t'']
   \<and> cleanCommand ''PING -T host -n -t'' = Inr ''ping -t -n''"
proof -
  have h1: "toLowerCase (hd (split_on (\<lambda>c. c = CHR '' '') (trim ''PING -T host -n -t''))) = ''ping''"
    by code_simp
  have h2: "commonCommands ''ping'' = Params [''-t'', ''-a'', ''-n'', ''-l'']"
    by (simp add: commonCommands_def)
  have h3: "[''-T'', ''-n'', ''-t''] = paramMatches (fst (replaceUrls [] (trim ''PING -T host -n -t'')))"
    by code_simp
  have h4: "''ping'' = ''curl'' \<longrightarrow>
      (\<forall>m\<in>set [''-T'', ''-n'', ''-t'']. toLowerCase m \<notin> {''-l'', ''-i'', ''-h''})"
    by simp
  have low: "map toLowerCase [''-T'', ''-n'', ''-t''] = [''-t'', ''-n'', ''-t'']"
    "toLowerCase ` set [''-t'', ''-a'', ''-n'', ''-l''] = {''-t'', ''-a'', ''-n'', ''-l''}"
    by (simp_all add: toLowerCase_def lowerChar_def isUpper_def)
  from cleanCommand_known_command[OF h1 h2 h3 h4]
  obtain flags where f: "cleanCommand ''PING -T host -n -t'' = Inr (''ping'' @ '' '' @ join '' '' flags)"
    "flags = rev (remdups (rev (filter (\<lambda>f. f \<in> toLowerCase ` set [''-t'', ''-a'', ''-n'', ''-l''])
                                          (map toLowerCase [''-T'', ''-n'', ''-t'']))))"
    by blast
  from f(2) have "flags = [''-t'', ''-n'']" unfolding low by simp
  with f(1) have "cleanCommand ''PING -T host -n -t'' = Inr ''ping -t -n''" by simp
  with h1 h2 h3 show ?thesis by simp
qed

text \<open>
  Claim C8 as stated fails: the normalizer finds the first word by splitting at the space
  character. In \<open>dir\<close>, a tab, \<open>/a\<close> the first word that white space delimits is \<open>dir\<close>, yet
  the normalizer takes the whole text for the first word and returns it as it is, not
  \<open>dir /a\<close>.
\<close>

theorem cleanCommand_tab_after_command:
  "toLowerCase (firstWhitespaceWord (''dir'' @ [CHR 0x09] @ ''/a'')) = ''dir''
   \<and> cleanCommand (''dir'' @ [CHR 0x09] @ ''/a'') = Inr (''dir'' @ [CHR 0x09] @ ''/a'')
   \<and> cleanCommand (''dir'' @ [CHR 0x09] @ ''/a'') \<noteq> Inr ''dir /a''"
  by code_simp

text \<open>The allow-list of \<open>curl\<close> holds \<open>-L\<close>, \<open>-I\<close> and \<open>-H\<close> in upper case, and a flag is
  looked up in lower case: those three flags never pass.\<close>

lemma cleanCommand_curl_upper_case_flags:
  "cleanCommand ''curl -L -s -I'' = Inr ''curl -s''"
  by code_simp

section \<open>Placeholders and their restoration\<close>

subsection \<open>The shape of a URL match\<close>

lemma matchUrl_shape:
  assumes "matchUrl s = Some (m, rest)"
  shows "\<exists>body. (m = ''http://'' @ body \<or> m = ''https://'' @ body) \<and> body \<noteq> []"
    and "s = m @ rest"
    and "rest = [] \<or> isWhiteSpace (hd rest)"
proof -
  let ?nw = "\<lambda>c. \<not> isWhiteSpace c"
  obtain n where n: "urlPrefixLength s = Some n"
    using assms by (cases "urlPrefixLength s") (auto simp: matchUrl_def)
  from assms n have b: "takeWhile ?nw (drop n s) \<noteq> []"
    and m: "m = take n s @ takeWhile ?nw (drop n s)"
    and r: "rest = dropWhile ?nw (drop n s)"
    by (auto simp: matchUrl_def Let_def split: if_splits)
  from n have "take n s = ''http://'' \<or> take n s = ''https://''"
    by (auto simp: urlPrefixLength_def prefix_def split: if_splits)
  with m b show "\<exists>body. (m = ''http://'' @ body \<or> m = ''https://'' @ body) \<and> body \<noteq> []"
    by auto
  have "m @ rest = take n s @ (takeWhile ?nw (drop n s) @ dropWhile ?nw (drop n s))"
    using m r by simp
  then show "s = m @ rest" by simp
  show "rest = [] \<or> isWhiteSpace (hd rest)"
  proof (cases "rest = []")
    case True
    then show ?thesis by simp
  next
    case False
    with r have "\<not> ?nw (hd rest)" using hd_dropWhile[of ?nw "drop n s"] by simp
    then show ?thesis by simp
  qed
qed

subsection \<open>Restoring the placeholders\<close>

lemma placeholder_shape: "\<exists>rest. placeholder i = CHR ''_'' # CHR ''_'' # CHR ''U'' # rest"
  by (simp add: placeholder_def)

lemma findFirst_here: "findFirst (placeholder i @ R) (placeholder i) = Some ([], R)"
proof -
  obtain rest where ph: "placeholder i = CHR ''_'' # CHR ''_'' # CHR ''U'' # rest"
    using placeholder_shape by blast
  have "findFirst (placeholder i @ R) (placeholder i)
          = Some ([], drop (length (placeholder i)) (placeholder i @ R))"
    unfolding ph by simp
  then show ?thesis by simp
qed

lemma noPlaceholderText_prefix: "noPlaceholderText (a @ b) \<Longrightarrow> noPlaceholderText a"
proof -
  assume n: "noPlaceholderText (a @ b)"
  have "\<not> str_includes a ''__URL''"
  proof
    assume "str_includes a ''__URL''"
    then obtain p q where "a = p @ ''__URL'' @ q" unfolding str_includes_iff by blast
    then have "a @ b = p @ ''__URL'' @ (q @ b)" by simp
    then have "str_includes (a @ b) ''__URL''" unfolding str_includes_iff by blast
    with n show False by (simp add: noPlaceholderText_def)
  qed
  then show ?thesis by (simp add: noPlaceholderText_def)
qed

lemma noPlaceholderText_tail: "noPlaceholderText (c # s) \<Longrightarrow> noPlaceholderText s"
  by (simp add: noPlaceholderText_def)

lemma placeholder_start:
  assumes "T1 \<noteq> []" "prefix ''__URL'' (T1 @ ''__URL'' @ X)"
  shows "prefix ''__URL'' T1"
proof (cases T1)
  case Nil
  with assms(1) show ?thesis by simp
next
  case 1: (Cons a t1)
  show ?thesis
  proof (cases t1)
    case Nil
    with 1 assms(2) show ?thesis by simp
  next
    case 2: (Cons b t2)
    show ?thesis
    proof (cases t2)
      case Nil
      with 1 2 assms(2) show ?thesis by simp
    next
      case 3: (Cons c t3)
      show ?thesis
      proof (cases t3)
        case Nil
        with 1 2 3 assms(2) show ?thesis by simp
      next
        case 4: (Cons d t4)
        show ?thesis
        proof (cases t4)
          case Nil
          with 1 2 3 4 assms(2) show ?thesis by simp
        next
          case (Cons e t5)
          with 1 2 3 4 assms(2) show ?thesis by auto
        qed
      qed
    qed
  qed
qed

lemma placeholder_prefix_URL: "\<exists>rest. placeholder i = ''__URL'' @ rest"
  by (simp add: placeholder_def)

lemma findFirst_placeholder:
  "noPlaceholderText T \<Longrightarrow>
     findFirst (T @ placeholder i @ R) (placeholder i) = Some (T, R)"
proof (induction T)
  case Nil
  show ?case by (simp add: findFirst_here)
next
  case (Cons c T)
  obtain rest where ph: "placeholder i = ''__URL'' @ rest"
    using placeholder_prefix_URL by blast
  have np: "\<not> prefix (placeholder i) ((c # T) @ placeholder i @ R)"
  proof
    assume "prefix (placeholder i) ((c # T) @ placeholder i @ R)"
    then have "prefix (''__URL'' @ rest) ((c # T) @ ''__URL'' @ (rest @ R))"
      by (simp only: ph append_assoc)
    then have "prefix ''__URL'' ((c # T) @ ''__URL'' @ (rest @ R))"
      by (rule append_prefixD)
    then have "prefix ''__URL'' (c # T)"
      by (rule placeholder_start[rotated]) simp
    then have "str_includes (c # T) ''__URL''"
      unfolding str_includes.simps(2) by (rule disjI1)
    with Cons.prems show False unfolding noPlaceholderText_def by blast
  qed
  from Cons.prems have "noPlaceholderText T" by (rule noPlaceholderText_tail)
  with Cons.IH have "findFirst (T @ placeholder i @ R) (placeholder i) = Some (T, R)" by simp
  with np show ?case by simp
qed

lemma expandReplacement_plain:
  "noReplacementPattern u \<Longrightarrow> expandReplacement pre matched post u = u"
  by (induction pre matched post u rule: expandReplacement.induct) auto

lemma replaceFirst_placeholder:
  assumes "noPlaceholderText T" "noReplacementPattern u"
  shows "replaceFirst (T @ placeholder i @ R) (placeholder i) u = T @ u @ R"
  using findFirst_placeholder[OF assms(1), of i R] expandReplacement_plain[OF assms(2)]
  by (simp add: replaceFirst_def)

lemma restore_inverts:
  "\<exists>U'. snd (replaceUrls acc s) = acc @ U'
      \<and> (\<forall>T. noPlaceholderText (T @ s) \<longrightarrow> (\<forall>u\<in>set U'. noReplacementPattern u) \<longrightarrow>
             restoreUrls (length acc) U' (T @ fst (replaceUrls acc s)) = T @ s)"
proof (induction acc s rule: replaceUrls.induct)
  case (1 urls)
  show ?case by (simp add: replaceUrls.simps)
next
  case (2 urls c cs)
  show ?case
  proof (cases "matchUrl (c # cs)")
    case None
    from "2.IH"(1)[OF None] obtain U' where
      U: "snd (replaceUrls urls cs) = urls @ U'"
      and R: "\<And>T. noPlaceholderText (T @ cs) \<Longrightarrow> \<forall>u\<in>set U'. noReplacementPattern u \<Longrightarrow>
             restoreUrls (length urls) U' (T @ fst (replaceUrls urls cs)) = T @ cs"
      by blast
    have f: "fst (replaceUrls urls (c # cs)) = c # fst (replaceUrls urls cs)"
      and s: "snd (replaceUrls urls (c # cs)) = snd (replaceUrls urls cs)"
      using None by (simp_all add: replaceUrls.simps split: prod.splits)
    have "\<forall>T. noPlaceholderText (T @ c # cs) \<longrightarrow> (\<forall>u\<in>set U'. noReplacementPattern u) \<longrightarrow>
             restoreUrls (length urls) U' (T @ fst (replaceUrls urls (c # cs))) = T @ c # cs"
    proof (intro allI impI)
      fix T assume "noPlaceholderText (T @ c # cs)" and d: "\<forall>u\<in>set U'. noReplacementPattern u"
      then have "noPlaceholderText ((T @ [c]) @ cs)" by simp
      from R[OF this d] show "restoreUrls (length urls) U' (T @ fst (replaceUrls urls (c # cs))) = T @ c # cs"
        unfolding f by simp
    qed
    with U s show ?thesis by auto
  next
    case (Some mr)
    obtain m rest where mr: "mr = (m, rest)" by (cases mr)
    with Some have mu: "matchUrl (c # cs) = Some (m, rest)" by simp
    from matchUrl_shape(2)[OF mu] have split: "c # cs = m @ rest" .
    from "2.IH"(2)[OF Some mr[symmetric]] obtain U'' where
      U: "snd (replaceUrls (urls @ [m]) rest) = (urls @ [m]) @ U''"
      and R: "\<And>T. noPlaceholderText (T @ rest) \<Longrightarrow> \<forall>u\<in>set U''. noReplacementPattern u \<Longrightarrow>
             restoreUrls (length (urls @ [m])) U'' (T @ fst (replaceUrls (urls @ [m]) rest)) = T @ rest"
      by blast
    have f: "fst (replaceUrls urls (c # cs))
               = placeholder (length urls) @ fst (replaceUrls (urls @ [m]) rest)"
      and s: "snd (replaceUrls urls (c # cs)) = snd (replaceUrls (urls @ [m]) rest)"
      using mu by (simp_all add: replaceUrls.simps split: prod.splits)
    have "\<forall>T. noPlaceholderText (T @ c # cs) \<longrightarrow> (\<forall>u\<in>set (m # U''). noReplacementPattern u) \<longrightarrow>
             restoreUrls (length urls) (m # U'') (T @ fst (replaceUrls urls (c # cs))) = T @ c # cs"
    proof (intro allI impI)
      fix T assume n: "noPlaceholderText (T @ c # cs)" and d: "\<forall>u\<in>set (m # U''). noReplacementPattern u"
      from n have nT: "noPlaceholderText T" by (rule noPlaceholderText_prefix)
      from d have dm: "noReplacementPattern m" and d': "\<forall>u\<in>set U''. noReplacementPattern u" by simp_all
      from n split have n': "noPlaceholderText ((T @ m) @ rest)" by simp
      have "restoreUrls (length urls) (m # U'') (T @ fst (replaceUrls urls (c # cs)))
            = restoreUrls (length urls + 1) U''
                (replaceFirst (T @ placeholder (length urls) @ fst (replaceUrls (urls @ [m]) rest))
                   (placeholder (length urls)) m)"
        unfolding f by simp
      also have "\<dots> = restoreUrls (length (urls @ [m])) U''
                         ((T @ m) @ fst (replaceUrls (urls @ [m]) rest))"
        by (simp add: replaceFirst_placeholder[OF nT dm])
      also have "\<dots> = (T @ m) @ rest" by (rule R[OF n' d'])
      finally show "restoreUrls (length urls) (m # U'') (T @ fst (replaceUrls urls (c # cs))) = T @ c # cs"
        using split by simp
    qed
    moreover have "snd (replaceUrls urls (c # cs)) = urls @ (m # U'')" using s U by simp
    ultimately show ?thesis by blast
  qed
qed

lemma restoreUrls_replaceUrls:
  assumes "replaceUrls [] s = (text, urls)" "noPlaceholderText s" "\<forall>u\<in>set urls. noReplacementPattern u"
  shows "restoreUrls 0 urls text = s"
  using restore_inverts[of "[]" s] assms by (auto dest: spec[of _ "[]"])

lemma urls_occur:
  "u \<in> set (snd (replaceUrls acc s)) \<Longrightarrow>
     u \<in> set acc \<or> (\<exists>p q. s = p @ u @ q \<and> matchUrl (u @ q) = Some (u, q))"
proof (induction acc s rule: replaceUrls.induct)
  case (1 urls)
  then show ?case by (simp add: replaceUrls.simps)
next
  case (2 urls c cs)
  show ?case
  proof (cases "matchUrl (c # cs)")
    case None
    then have "snd (replaceUrls urls (c # cs)) = snd (replaceUrls urls cs)"
      by (simp add: replaceUrls.simps split: prod.splits)
    with "2.prems" "2.IH"(1)[OF None] consider "u \<in> set urls"
      | p q where "cs = p @ u @ q" "matchUrl (u @ q) = Some (u, q)" by auto
    then show ?thesis
    proof cases
      case 1
      then show ?thesis by simp
    next
      case 2
      then have "c # cs = (c # p) @ u @ q" by simp
      with 2(2) show ?thesis by blast
    qed
  next
    case (Some mr)
    obtain m rest where mr: "mr = (m, rest)" by (cases mr)
    with Some have mu: "matchUrl (c # cs) = Some (m, rest)" by simp
    from matchUrl_shape(2)[OF mu] have split: "c # cs = m @ rest" .
    have "snd (replaceUrls urls (c # cs)) = snd (replaceUrls (urls @ [m]) rest)"
      using mu by (simp add: replaceUrls.simps split: prod.splits)
    with "2.prems" "2.IH"(2)[OF Some mr[symmetric]] consider "u \<in> set urls" | "u = m"
      | p q where "rest = p @ u @ q" "matchUrl (u @ q) = Some (u, q)" by auto
    then show ?thesis
    proof cases
      case 1
      then show ?thesis by simp
    next
      case 2
      with split mu have "c # cs = [] @ u @ rest" "matchUrl (u @ rest) = Some (u, rest)" by simp_all
      then show ?thesis by blast
    next
      case 3
      with split have "c # cs = (m @ p) @ u @ q" by simp
      with 3(2) show ?thesis by blast
    qed
  qed
qed

section \<open>URLs under the rewriting of path separators\<close>

subsection \<open>A URL stays as it is\<close>

lemma fixSeparators_skip:
  "\<not> (c = CHR ''/'' \<and> d = CHR ''/'' \<and> \<not> suffix ''http:'' pre \<and> \<not> suffix ''https:'' pre) \<Longrightarrow>
     fixSeparators pre (c # d # cs) = c # fixSeparators (pre @ [c]) (d # cs)"
  by (subst fixSeparators.simps) (rule if_not_P)

lemma fixSeparators_hit:
  "c = CHR ''/'' \<and> d = CHR ''/'' \<and> \<not> suffix ''http:'' pre \<and> \<not> suffix ''https:'' pre \<Longrightarrow>
     fixSeparators pre (c # d # cs) = CHR 0x5C # fixSeparators (pre @ [c, d]) cs"
  by (subst fixSeparators.simps) (rule if_P)

lemma fixSeparators_before:
  "b \<noteq> [] \<Longrightarrow> hd b \<noteq> CHR ''/'' \<Longrightarrow>
     fixSeparators pre (a @ b) = fixSeparators pre a @ fixSeparators (pre @ a) b"
proof (induction pre a rule: fixSeparators.induct)
  case (1 pre)
  show ?case by simp
next
  case (2 pre c)
  then show ?case by (cases b) simp_all
next
  case (3 pre c d cs)
  show ?case
  proof (cases "c = CHR ''/'' \<and> d = CHR ''/'' \<and> \<not> suffix ''http:'' pre \<and> \<not> suffix ''https:'' pre")
    case True
    have "fixSeparators pre ((c # d # cs) @ b) = CHR 0x5C # fixSeparators (pre @ [c, d]) (cs @ b)"
      using fixSeparators_hit[OF True, of "cs @ b"] by simp
    also have "fixSeparators (pre @ [c, d]) (cs @ b)
                 = fixSeparators (pre @ [c, d]) cs @ fixSeparators ((pre @ [c, d]) @ cs) b"
      by (rule "3.IH"(1)[OF True "3.prems"])
    finally show ?thesis using fixSeparators_hit[OF True, of cs] by simp
  next
    case False
    have "fixSeparators pre ((c # d # cs) @ b) = c # fixSeparators (pre @ [c]) ((d # cs) @ b)"
      using fixSeparators_skip[OF False, of "cs @ b"] by simp
    also have "fixSeparators (pre @ [c]) ((d # cs) @ b)
                 = fixSeparators (pre @ [c]) (d # cs) @ fixSeparators ((pre @ [c]) @ (d # cs)) b"
      by (rule "3.IH"(2)[OF False "3.prems"])
    finally show ?thesis using fixSeparators_skip[OF False, of cs] by simp
  qed
qed

lemma fixSeparators_scheme:
  assumes "sch = ''http:'' \<or> sch = ''https:''"
  shows "fixSeparators pre (sch @ CHR ''/'' # CHR ''/'' # rest)
           = sch @ CHR ''/'' # fixSeparators (pre @ sch @ ''/'') (CHR ''/'' # rest)"
proof -
  have n: "noDoubleSlash sch" "sch \<noteq> [] \<and> last sch = CHR ''/'' \<longrightarrow> False"
    using assms by auto
  have "fixSeparators pre (sch @ CHR ''/'' # CHR ''/'' # rest)
          = sch @ fixSeparators (pre @ sch) (CHR ''/'' # CHR ''/'' # rest)"
    using n by (intro fixSeparators_append) auto
  moreover have "suffix ''http:'' (pre @ sch) \<or> suffix ''https:'' (pre @ sch)"
    using assms by (auto simp: suffix_def)
  ultimately show ?thesis by auto
qed

lemma url_survives:
  assumes m: "matchUrl (u @ q) = Some (u, q)" and t: "noDoubleSlash (urlTail u)"
  shows "fixSeparators pre (u @ q) = u @ fixSeparators (pre @ u) q"
proof -
  from matchUrl_shape[OF m] obtain body where
    u: "u = ''http://'' @ body \<or> u = ''https://'' @ body" and q: "q = [] \<or> isWhiteSpace (hd q)"
    by blast
  from q have q': "q = [] \<or> hd q \<noteq> CHR ''/''" by (auto simp: isWhiteSpace_def)
  from u obtain sch where sch: "sch = ''http:'' \<or> sch = ''https:''" and us: "u = sch @ ''//'' @ body"
    by auto
  from t us sch have nb: "noDoubleSlash (CHR ''/'' # body)"
    by (auto simp: urlTail_def)
  have "fixSeparators pre (u @ q) = fixSeparators pre (sch @ CHR ''/'' # CHR ''/'' # (body @ q))"
    using us by simp
  also have "\<dots> = sch @ CHR ''/'' # fixSeparators (pre @ sch @ ''/'') (CHR ''/'' # (body @ q))"
    by (rule fixSeparators_scheme[OF sch])
  also have "fixSeparators (pre @ sch @ ''/'') (CHR ''/'' # (body @ q))
               = (CHR ''/'' # body) @ fixSeparators ((pre @ sch @ ''/'') @ (CHR ''/'' # body)) q"
    using fixSeparators_append[OF nb, of q "pre @ sch @ ''/''"] q' by simp
  finally show ?thesis using us by simp
qed

lemma url_in_output:
  assumes "u \<in> set (snd (replaceUrls [] s))" "noDoubleSlash (urlTail u)"
  shows "\<exists>p q. fixSeparators [] s = p @ u @ q"
proof -
  from urls_occur[OF assms(1)] obtain p q where
    s: "s = p @ u @ q" and m: "matchUrl (u @ q) = Some (u, q)" by auto
  from matchUrl_shape(1)[OF m] have h: "u @ q \<noteq> []" "hd (u @ q) \<noteq> CHR ''/''" by auto
  have "fixSeparators [] (p @ (u @ q)) = fixSeparators [] p @ fixSeparators ([] @ p) (u @ q)"
    by (rule fixSeparators_before[OF h])
  also have "fixSeparators ([] @ p) (u @ q) = u @ fixSeparators (([] @ p) @ u) q"
    by (rule url_survives[OF m assms(2)])
  finally show ?thesis using s by auto
qed

subsection \<open>The branch for unknown commands\<close>

lemma join_cons_first:
  "L \<noteq> [] \<Longrightarrow> join sep (cons_first c L) = c # join sep L"
proof (cases L)
  case Nil
  assume "L \<noteq> []"
  with Nil show ?thesis by simp
next
  case (Cons w ws)
  then show ?thesis by (cases ws) simp_all
qed

lemma join_split_on: "join [c0] (split_on (\<lambda>c. c = c0) s) = s"
proof (induction s)
  case Nil
  show ?case by simp
next
  case (Cons c cs)
  show ?case
  proof (cases "c = c0")
    case True
    obtain w ws where "split_on (\<lambda>c. c = c0) cs = w # ws"
      using split_on_not_Nil[of "\<lambda>c. c = c0" cs] by (cases "split_on (\<lambda>c. c = c0) cs") auto
    with True Cons show ?thesis by simp
  next
    case False
    with Cons show ?thesis by (simp add: join_cons_first split_on_not_Nil)
  qed
qed

lemma unknownCommand_whole:
  assumes "\<forall>part\<in>set (tl (split_on (\<lambda>c. c = CHR '' '') cleaned)).
             toLowerCase part \<noteq> toLowerCase (hd (split_on (\<lambda>c. c = CHR '' '') cleaned))"
  shows "unknownCommand (split_on (\<lambda>c. c = CHR '' '') cleaned) = cleaned"
proof -
  let ?parts = "split_on (\<lambda>c. c = CHR '' '') cleaned"
  obtain b ps where parts: "?parts = b # ps"
    using split_on_not_Nil[of "\<lambda>c. c = CHR '' ''" cleaned] by (cases ?parts) auto
  with assms have "takeWhile (\<lambda>part. toLowerCase part \<noteq> toLowerCase b) ps = ps"
    by (intro takeWhile_eq_all_conv[THEN iffD2]) simp
  then have "unknownCommand ?parts = join '' '' (b # ps)"
    unfolding parts by (cases ps) (simp_all add: unknownCommand_def Let_def)
  also have "\<dots> = cleaned" using join_split_on[of "CHR '' ''" cleaned] parts by simp
  finally show ?thesis .
qed

lemma fixSeparators_hd:
  "s \<noteq> [] \<Longrightarrow> isAsciiAlnum (hd s) \<Longrightarrow>
     fixSeparators pre s \<noteq> [] \<and> hd (fixSeparators pre s) = hd s"
proof (cases s)
  case Nil
  assume "s \<noteq> []"
  with Nil show ?thesis by simp
next
  case (Cons c r)
  assume "isAsciiAlnum (hd s)"
  with Cons have "c \<noteq> CHR ''/''" by (auto simp: isAsciiAlnum_def)
  with Cons show ?thesis by (cases r) simp_all
qed

lemma cleanCommand_unknown:
  assumes ru: "replaceUrls [] (trim command) = (cleaned, urls)"
    and missing: "commonCommands (toLowerCase (hd (split_on (\<lambda>c. c = CHR '' '') cleaned))) = Missing"
    and norepeat: "\<forall>part\<in>set (tl (split_on (\<lambda>c. c = CHR '' '') cleaned)).
             toLowerCase part \<noteq> toLowerCase (hd (split_on (\<lambda>c. c = CHR '' '') cleaned))"
    and nodu: "noPlaceholderText (trim command)"
    and alnum: "trim command \<noteq> [] \<longrightarrow> isAsciiAlnum (hd (trim command))"
    and plain: "\<forall>u\<in>set urls. noReplacementPattern u"
  shows "cleanCommand command = Inr (fixSeparators [] (trim command))"
proof -
  have r: "restoreUrls 0 urls cleaned = trim command"
    by (rule restoreUrls_replaceUrls[OF ru nodu plain])
  have "cleanCommand command = finishCommand (restoreUrls 0 urls (unknownCommand (split_on (\<lambda>c. c = CHR '' '') cleaned)))"
    using ru missing by (simp add: cleanCommand_def Let_def)
  also have "\<dots> = finishCommand (trim command)"
    by (simp only: unknownCommand_whole[OF norepeat] r)
  also have "\<dots> = Inr (fixSeparators [] (trim command))"
  proof (cases "trim command = []")
    case True
    then show ?thesis by (simp add: finishCommand_def)
  next
    case False
    with alnum fixSeparators_hd[of "trim command" "[]"] show ?thesis
      by (simp add: finishCommand_def)
  qed
  finally show ?thesis .
qed

section \<open>The normalizer on commands with URLs\<close>

text \<open>
  Claim C2, as amended. Let \<open>cleaned\<close> be the trimmed input with every URL replaced by
  its placeholder, and \<open>urls\<close> the URLs in the order they are found. Suppose that the first
  space-delimited word of \<open>cleaned\<close> is no known command (and no inherited property name),
  that no later word of \<open>cleaned\<close> repeats the first one up to case, that the input does
  not hold the text \<open>__URL\<close>, that the input does not start with a character other than a
  letter or a digit, and that no URL of the input holds a replacement pattern (a dollar
  sign before a dollar sign, an ampersand, a backquote or a quote). Then the normalizer
  returns the trimmed input with its path separators rewritten, every URL is a match of the
  URL pattern in the input, and every URL that holds two slashes in a row in its scheme
  separator only stands in the output character for character, whatever the other URLs
  hold.
\<close>

theorem cleanCommand_keeps_urls:
  assumes "replaceUrls [] (trim command) = (cleaned, urls)"
    and "commonCommands (toLowerCase (hd (split_on (\<lambda>c. c = CHR '' '') cleaned))) = Missing"
    and "\<forall>part\<in>set (tl (split_on (\<lambda>c. c = CHR '' '') cleaned)).
           toLowerCase part \<noteq> toLowerCase (hd (split_on (\<lambda>c. c = CHR '' '') cleaned))"
    and "noPlaceholderText (trim command)"
    and "trim command \<noteq> [] \<longrightarrow> isAsciiAlnum (hd (trim command))"
    and "\<forall>u\<in>set urls. noReplacementPattern u"
  shows "cleanCommand command = Inr (fixSeparators [] (trim command))
       \<and> (\<forall>u\<in>set urls. \<exists>p q. trim command = p @ u @ q \<and> matchUrl (u @ q) = Some (u, q))
       \<and> (\<forall>u\<in>set urls. noDoubleSlash (urlTail u) \<longrightarrow>
             (\<exists>p q. fixSeparators [] (trim command) = p @ u @ q))"
proof (intro conjI ballI impI)
  show "cleanCommand command = Inr (fixSeparators [] (trim command))"
    by (rule cleanCommand_unknown[OF assms(1) assms(2) assms(3) assms(4) assms(5) assms(6)])
next
  fix u assume "u \<in> set urls"
  with assms(1) have "u \<in> set (snd (replaceUrls [] (trim command)))" by simp
  from urls_occur[OF this]
  show "\<exists>p q. trim command = p @ u @ q \<and> matchUrl (u @ q) = Some (u, q)" by simp
next
  fix u assume u: "u \<in> set urls" and t: "noDoubleSlash (urlTail u)"
  from u assms(1) have "u \<in> set (snd (replaceUrls [] (trim command)))" by simp
  then show "\<exists>p q. fixSeparators [] (trim command) = p @ u @ q"
    using t by (rule url_in_output)
qed

theorem cleanCommand_keeps_urls_witness:
  "replaceUrls [] (trim ''cd c://x && start http://e.com/a_b http://f.com//g'')
     = (''cd c://x && start __URL0__ __URL1__'', [''http://e.com/a_b'', ''http://f.com//g''])
   \<and> noDoubleSlash (urlTail ''http://e.com/a_b'')
   \<and> \<not> noDoubleSlash (urlTail ''http://f.com//g'')
   \<and> cleanCommand ''cd c://x && start http://e.com/a_b http://f.com//g''
     = Inr (''cd c:'' @ [CHR 0x5C] @ ''x && start http://e.com/a_b http://f.com'' @ [CHR 0x5C] @ ''g'')
   \<and> (\<exists>p q. fixSeparators [] (trim ''cd c://x && start http://e.com/a_b http://f.com//g'')
              = p @ ''http://e.com/a_b'' @ q)"
proof -
  let ?c = "''cd c://x && start http://e.com/a_b http://f.com//g''"
  let ?cleaned = "''cd c://x && start __URL0__ __URL1__''"
  let ?urls = "[''http://e.com/a_b'', ''http://f.com//g'']"
  have h1: "replaceUrls [] (trim ?c) = (?cleaned, ?urls)"
    by code_simp
  have h2: "commonCommands (toLowerCase (hd (split_on (\<lambda>c. c = CHR '' '') ?cleaned))) = Missing"
    by code_simp
  have h3: "\<forall>part\<in>set (tl (split_on (\<lambda>c. c = CHR '' '') ?cleaned)).
           toLowerCase part \<noteq> toLowerCase (hd (split_on (\<lambda>c. c = CHR '' '') ?cleaned))"
    by code_simp
  have h4: "noPlaceholderText (trim ?c)"
    by code_simp
  have h5: "trim ?c \<noteq> [] \<longrightarrow> isAsciiAlnum (hd (trim ?c))"
    by code_simp
  have h6: "\<forall>u\<in>set ?urls. noReplacementPattern u"
    by code_simp
  have t1: "noDoubleSlash (urlTail ''http://e.com/a_b'')"
    by code_simp
  have t2: "\<not> noDoubleSlash (urlTail ''http://f.com//g'')"
    by code_simp
  have f: "fixSeparators [] (trim ?c)
             = ''cd c:'' @ [CHR 0x5C] @ ''x && start http://e.com/a_b http://f.com'' @ [CHR 0x5C] @ ''g''"
    by code_simp
  from cleanCommand_keeps_urls[OF h1 h2 h3 h4 h5 h6] t1
  have "cleanCommand ?c = Inr (fixSeparators [] (trim ?c))"
    and "\<exists>p q. fixSeparators [] (trim ?c) = p @ ''http://e.com/a_b'' @ q"
    by simp_all
  with h1 t1 t2 f show ?thesis by simp
qed

text \<open>
  Claim C2 as stated fails: for a known command the normalizer keeps the base command and
  its allow-listed flags only, so the URL of \<open>curl -s https://example.com\<close> is not in the
  output.
\<close>

theorem cleanCommand_drops_url:
  "snd (replaceUrls [] (trim ''curl -s https://example.com'')) = [''https://example.com'']
   \<and> cleanCommand ''curl -s https://example.com'' = Inr ''curl -s''
   \<and> \<not> str_includes ''curl -s'' ''https://example.com''"
  by code_simp

text \<open>The URLs are put back before the path separators are rewritten, so two slashes
  inside a URL become a backslash; and a URL is put back as a replacement pattern, in which
  two dollar signs stand for one.\<close>

lemma cleanCommand_slashes_in_url:
  "cleanCommand ''start http://a.com//b'' = Inr (''start http://a.com'' @ [CHR 0x5C] @ ''b'')"
  by code_simp

lemma cleanCommand_dollars_in_url:
  "cleanCommand ''start http://a.com/$$b'' = Inr ''start http://a.com/$b''"
  by code_simp

text \<open>A replacement pattern in one URL can spoil another URL: the pattern made of a dollar
  sign and a quote stands for the text after the match, which holds the placeholder of the
  second URL; that copy is restored in place of the real one, and two slashes form at its
  end.\<close>

lemma cleanCommand_pattern_in_other_url:
  "cleanCommand (''start http://a/$'' @ [CHR 0x27] @ ''/x http://c.com/d/'')
     = Inr (''start http://a/ http://c.com/d'' @ [CHR 0x5C] @ ''x __URL1__'')
   \<and> noDoubleSlash (urlTail ''http://c.com/d/'')
   \<and> noReplacementPattern ''http://c.com/d/''
   \<and> \<not> str_includes (''start http://a/ http://c.com/d'' @ [CHR 0x5C] @ ''x __URL1__'')
         ''http://c.com/d/''"
  by code_simp

end
